theory Spec2Isabelle
  imports Main "HOL-Library.Sublist"
begin

section \<open>Runtime accessor: \<^verbatim>\<open>src/config/constants.ts\<close>\<close>

text \<open>
  The module exports one constant per configuration key, each of the shape
  \<^verbatim>\<open>import.meta.env.K ?? window._env_.K\<close>.
  A JavaScript value is one of the primitive values below; reading a property that an
  object does not have gives \<open>Undefined\<close>. Reading a property of \<open>undefined\<close> throws a
  \<open>TypeError\<close>, which is the only exception the expression can raise.
\<close>

datatype js_value = Undefined | Null | Bool bool | Num int | Str string

datatype js_error = TypeError

text \<open>\<^verbatim>\<open>import.meta.env\<close>: an object whose properties may hold any value.\<close>

type_synonym import_meta_env = "string \<rightharpoonup> js_value"

text \<open>
  \<^verbatim>\<open>interface Window { _env_: { [key: string]: string } }\<close>: the global object that
  \<^verbatim>\<open>front.env.js\<close> assigns. The declaration is ambient: when that script was not
  loaded the global is not there, which is \<open>None\<close> here.
\<close>

record window =
  window_env :: "(string \<rightharpoonup> string) option"

definition nullish :: "js_value \<Rightarrow> bool" where
  "nullish v = (v = Undefined \<or> v = Null)"

text \<open>\<^verbatim>\<open>import.meta.env.K\<close>\<close>

definition import_meta_env_member :: "import_meta_env \<Rightarrow> string \<Rightarrow> js_value" where
  "import_meta_env_member meta k = (case meta k of None \<Rightarrow> Undefined | Some v \<Rightarrow> v)"

text \<open>\<^verbatim>\<open>window._env_.K\<close>\<close>

definition window_env_member :: "window \<Rightarrow> string \<Rightarrow> js_error + js_value" where
  "window_env_member w k =
     (case window_env w of
        None \<Rightarrow> Inl TypeError
      | Some obj \<Rightarrow> Inr (case obj k of None \<Rightarrow> Undefined | Some s \<Rightarrow> Str s))"

text \<open>
  \<^verbatim>\<open>a ?? b\<close>: the right operand is evaluated only when the left one is \<open>null\<close> or
  \<open>undefined\<close>, so an exception of the right operand is raised only then.
\<close>

definition nullish_coalesce :: "js_value \<Rightarrow> js_error + js_value \<Rightarrow> js_error + js_value" where
  "nullish_coalesce a b = (if nullish a then b else Inr a)"

definition STAGE :: "import_meta_env \<Rightarrow> window \<Rightarrow> js_error + js_value" where
  "STAGE meta w =
     nullish_coalesce (import_meta_env_member meta ''STAGE'') (window_env_member w ''STAGE'')"

definition API_URL :: "import_meta_env \<Rightarrow> window \<Rightarrow> js_error + js_value" where
  "API_URL meta w =
     nullish_coalesce (import_meta_env_member meta ''API_URL'') (window_env_member w ''API_URL'')"

definition ENV_TEST :: "import_meta_env \<Rightarrow> window \<Rightarrow> js_error + js_value" where
  "ENV_TEST meta w =
     nullish_coalesce (import_meta_env_member meta ''ENV_TEST'') (window_env_member w ''ENV_TEST'')"

text \<open>The three exported constants, by key.\<close>

definition constants :: "(string \<times> (import_meta_env \<Rightarrow> window \<Rightarrow> js_error + js_value)) list" where
  "constants = [(''STAGE'', STAGE), (''API_URL'', API_URL), (''ENV_TEST'', ENV_TEST)]"


section \<open>Build-time transform: \<^verbatim>\<open>replacePlugin\<close> in \<^verbatim>\<open>vite.config.ts\<close>\<close>

text \<open>
  \<^verbatim>\<open>html.replace("<!-- ENV -->", `<script src="./config/front.env.js"></script>`)\<close>
  with a string pattern: \<^verbatim>\<open>String.prototype.replace\<close> looks for the first occurrence
  of the pattern (\<^verbatim>\<open>indexOf\<close>); without one it returns the string as it is, with one
  it returns the text before, the substitution and the text after. Texts are lists of
  characters; the search and the counting below do not depend on the character type.
\<close>

definition ENV_placeholder :: string where
  "ENV_placeholder = ''<!-- ENV -->''"

definition script_tag :: string where
  \<open>script_tag = ''<script src="./config/front.env.js"></script>''\<close>

text \<open>\<^verbatim>\<open>indexOf\<close>: the least position at which the pattern starts, if any.\<close>

fun index_of :: "'a list \<Rightarrow> 'a list \<Rightarrow> nat option" where
  "index_of pat [] = (if pat = [] then Some 0 else None)"
| "index_of pat (c # cs) =
     (if prefix pat (c # cs) then Some 0 else map_option Suc (index_of pat cs))"

text \<open>
  The substitution text of \<^verbatim>\<open>replace\<close> for a string pattern (no capture groups):
  \<^verbatim>\<open>$$\<close> is a dollar sign, \<^verbatim>\<open>$&\<close> the matched text, \<^verbatim>\<open>$`\<close> the text before the
  match, \<^verbatim>\<open>$'\<close> the text after it; every other character stands for itself.
\<close>

fun get_substitution :: "string \<Rightarrow> string \<Rightarrow> string \<Rightarrow> string \<Rightarrow> string" where
  "get_substitution matched preceding following [] = []"
| "get_substitution matched preceding following [c] = [c]"
| "get_substitution matched preceding following (c # d # cs) =
     (if c = CHR ''$'' \<and> d = CHR ''$'' then CHR ''$'' # get_substitution matched preceding following cs
      else if c = CHR ''$'' \<and> d = CHR ''&'' then matched @ get_substitution matched preceding following cs
      else if c = CHR ''$'' \<and> d = CHR 0x60 then preceding @ get_substitution matched preceding following cs
      else if c = CHR ''$'' \<and> d = CHR 0x27 then following @ get_substitution matched preceding following cs
      else c # get_substitution matched preceding following (d # cs))"

definition string_replace :: "string \<Rightarrow> string \<Rightarrow> string \<Rightarrow> string" where
  "string_replace s pat rep =
     (case index_of pat s of
        None \<Rightarrow> s
      | Some i \<Rightarrow>
          (let preceding = take i s; following = drop (i + length pat) s
           in preceding @ get_substitution pat preceding following rep @ following))"

definition transformIndexHtml :: "string \<Rightarrow> string" where
  "transformIndexHtml html = string_replace html ENV_placeholder script_tag"

text \<open>
  What the statements below mean by the number of occurrences of a text in a string:
  the number of positions at which it starts.
\<close>

fun occurrences :: "'a list \<Rightarrow> 'a list \<Rightarrow> nat" where
  "occurrences pat [] = (if pat = [] then 1 else 0)"
| "occurrences pat (c # cs) = (if prefix pat (c # cs) then 1 else 0) + occurrences pat cs"

text \<open>
  Two computable checks on a pair of fixed texts, used to count occurrences around a
  replaced block: \<open>mismatch xs ys\<close> says that the two texts differ at a position both
  have, so that no text beginning with \<open>ys\<close> begins with \<open>xs\<close>; \<open>no_inner pat x\<close> that
  no occurrence of \<open>pat\<close> starts inside \<open>x\<close> after its first character; and
  \<open>no_overlap pat x\<close> that no occurrence of \<open>pat\<close> starts before \<open>x\<close> and ends in it.
\<close>

definition mismatch :: "'a list \<Rightarrow> 'a list \<Rightarrow> bool" where
  "mismatch xs ys = list_ex (\<lambda>(a, b). a \<noteq> b) (zip xs ys)"

definition no_inner :: "'a list \<Rightarrow> 'a list \<Rightarrow> bool" where
  "no_inner pat x = list_all (\<lambda>j. mismatch pat (drop j x)) [1..<length x]"

definition no_overlap :: "'a list \<Rightarrow> 'a list \<Rightarrow> bool" where
  "no_overlap pat x = list_all (\<lambda>k. mismatch (drop k pat) x) [1..<length pat]"


section \<open>Startup generator: \<^verbatim>\<open>start.sh\<close>\<close>

text \<open>
  The script is a sequence of shell commands. Its model threads a state through them:
  the filesystem, the exit status of the last command (\<^verbatim>\<open>$?\<close>) and the list of events
  so far. The script has no \<^verbatim>\<open>set -e\<close> and tests no status, so every command runs
  whatever the one before it returned, and the exit status of the script is that of
  its last command.
\<close>

subsection \<open>Filesystem, events and the host\<close>

text \<open>
  A path is the list of its components. The filesystem is the one the serving root
  \<^verbatim>\<open>/var/www/app\<close> lies on: its directories, its regular files with their contents, and
  whether it refuses writes (a volume mounted read-only, for instance). A directory is
  there with all its ancestors, so \<open>dirs\<close> need only hold the deepest ones.
\<close>

type_synonym path = "string list"

record filesystem =
  dirs :: "path set"
  files :: "path \<rightharpoonup> string"
  read_only :: bool

definition directory :: "filesystem \<Rightarrow> path \<Rightarrow> bool" where
  "directory f p = (\<exists>q\<in>dirs f. prefix p q)"

text \<open>
  What an execution does, in order: a line printed, a directory made, a file opened by a
  redirection (with whether that worked), the server started (with the contents of
  \<^verbatim>\<open>front.env.js\<close> it then finds, if the file is there).
\<close>

datatype event =
    Stdout string
  | Mkdir path bool
  | Open_write path bool
  | Open_append path bool
  | Server_start "string option"

record sh_state =
  fs :: filesystem
  status :: nat
  trace :: "event list"

datatype entry_kind = Directory | Regular_file

type_synonym namespace = "path \<Rightarrow> entry_kind option"

text \<open>
  What the script takes from its host and this development does not look into:
  pathname expansion of a word with pattern characters (it reads the names on the
  filesystem); which of the leading operands that begin with a hyphen the shell's
  \<^verbatim>\<open>echo\<close> takes as options (how many, and whether they suppress the newline); what
  \<^verbatim>\<open>echo\<close> prints when an operand holds a backslash; and the status with which
  \<^verbatim>\<open>nginx\<close> returns.
\<close>

record host =
  pathname_expansion :: "namespace \<Rightarrow> string \<Rightarrow> string list"
  echo_options :: "string list \<Rightarrow> nat \<times> bool"
  echo_other :: "string list \<Rightarrow> string"
  nginx_status :: nat

text \<open>The names on a filesystem: what pathname expansion can see.\<close>

definition namespace :: "filesystem \<Rightarrow> namespace" where
  "namespace f p =
     (if directory f p then Some Directory
      else if files f p \<noteq> None then Some Regular_file
      else None)"

subsection \<open>Words and text in the shell\<close>

text \<open>The default \<^verbatim>\<open>IFS\<close>: space, tab, newline.\<close>

definition is_ifs :: "char \<Rightarrow> bool" where
  "is_ifs c = (c = CHR '' '' \<or> c = CHR 0x09 \<or> c = CHR 0x0A)"

text \<open>Field splitting of an unquoted expansion: the maximal runs of characters outside \<^verbatim>\<open>IFS\<close>.\<close>

function field_split :: "string \<Rightarrow> string list" where
  "field_split [] = []"
| "field_split (c # cs) =
     (if is_ifs c then field_split cs
      else (c # takeWhile (\<lambda>d. \<not> is_ifs d) cs) # field_split (dropWhile (\<lambda>d. \<not> is_ifs d) cs))"
  by pat_completeness auto
termination
  by (relation "measure length") (auto simp: le_imp_less_Suc length_dropWhile_le)

text \<open>Operands joined by single spaces, as \<^verbatim>\<open>echo\<close> prints them.\<close>

fun unwords :: "string list \<Rightarrow> string" where
  "unwords [] = []"
| "unwords [w] = w"
| "unwords (w # v # ws) = w @ CHR '' '' # unwords (v # ws)"

text \<open>The lines of a text: each ends at a newline, the last one also at the end of the text.\<close>

fun lines_of :: "string \<Rightarrow> string list" where
  "lines_of [] = []"
| "lines_of (c # cs) =
     (if c = CHR 0x0A then [] # lines_of cs
      else (case lines_of cs of [] \<Rightarrow> [[c]] | l # ls \<Rightarrow> (c # l) # ls))"

definition glob_chars :: string where
  "glob_chars = ''*?[''"

text \<open>
  Pathname expansion of one field: a word without pattern characters stands for itself,
  any other word is expanded by the host against the names that exist.
\<close>

definition expand_word :: "host \<Rightarrow> namespace \<Rightarrow> string \<Rightarrow> string list" where
  "expand_word h ns w =
     (if \<exists>c\<in>set w. c \<in> set glob_chars then pathname_expansion h ns w else [w])"

text \<open>
  The words of an unquoted expansion (\<^verbatim>\<open>$ENV_VARS\<close>, \<^verbatim>\<open>$(...)\<close>, and the
  \<^verbatim>\<open>$NAME\<close> that \<^verbatim>\<open>eval\<close> is given): field splitting, then pathname expansion.
\<close>

definition word_expansion :: "host \<Rightarrow> namespace \<Rightarrow> string \<Rightarrow> string list" where
  "word_expansion h ns text = concat (map (expand_word h ns) (field_split text))"

text \<open>
  \<^verbatim>\<open>echo\<close>: of the leading operands that begin with a hyphen the shell takes some as
  options (\<^verbatim>\<open>-n\<close>, \<^verbatim>\<open>-e\<close>, \<^verbatim>\<open>-E\<close>; which ones depends on the shell) and prints the
  other operands joined by single spaces, then a newline unless an option suppresses
  it. When an operand holds a backslash the shell may read escape sequences, and the
  output is the host's.
\<close>

definition echo_builtin :: "host \<Rightarrow> string list \<Rightarrow> string" where
  "echo_builtin h args =
     (if \<exists>a\<in>set args. CHR 0x5C \<in> set a then echo_other h args
      else (let candidates = takeWhile (prefix ''-'') args;
                (k, no_newline) = echo_options h candidates;
                taken = min k (length candidates)
            in unwords (drop taken args)
                 @ (if 0 < taken \<and> no_newline then [] else [CHR 0x0A])))"

text \<open>Operands on which every shell agrees: no backslash, and no hyphen at the start.\<close>

definition plain_args :: "string list \<Rightarrow> bool" where
  "plain_args args =
     ((\<forall>a\<in>set args. CHR 0x5C \<notin> set a) \<and>
      (case args of [] \<Rightarrow> True | a # _ \<Rightarrow> \<not> prefix ''-'' a))"

text \<open>\<^verbatim>\<open>$(...)\<close> takes the output of the command without its trailing newlines.\<close>

definition command_substitution :: "string \<Rightarrow> string" where
  "command_substitution out = rev (dropWhile (\<lambda>c. c = CHR 0x0A) (rev out))"

subsection \<open>The environment and the pipeline that selects names\<close>

text \<open>
  The process environment: names and values in the order in which \<^verbatim>\<open>env\<close> prints them,
  one \<^verbatim>\<open>NAME=value\<close> per entry, each followed by a newline.
\<close>

type_synonym environment = "(string \<times> string) list"

definition env_output :: "environment \<Rightarrow> string" where
  "env_output env = concat (map (\<lambda>(n, v). n @ ''='' @ v @ [CHR 0x0A]) env)"

text \<open>
  \<^verbatim>\<open>grep -E "^$prefix"\<close> for a pattern without metacharacters, which both whitelisted
  words are: the lines that begin with the word.
\<close>

definition grep_E_anchored :: "string \<Rightarrow> string list \<Rightarrow> string list" where
  "grep_E_anchored p ls = filter (prefix p) ls"

text \<open>\<^verbatim>\<open>awk -F= '{print $1}'\<close>: the text of a line before its first \<^verbatim>\<open>=\<close>.\<close>

definition awk_first_field :: "string \<Rightarrow> string" where
  "awk_first_field l = takeWhile (\<lambda>c. c \<noteq> CHR ''='') l"

text \<open>The output of \<^verbatim>\<open>env | grep -E "^$prefix" | awk -F= '{print $1}'\<close>.\<close>

definition matching_names :: "environment \<Rightarrow> string \<Rightarrow> string" where
  "matching_names env p =
     concat (map (\<lambda>l. awk_first_field l @ [CHR 0x0A])
       (grep_E_anchored p (lines_of (env_output env))))"

text \<open>The value of the shell variable with a name of the environment; empty when unset.\<close>

definition sh_variable :: "environment \<Rightarrow> string \<Rightarrow> string" where
  "sh_variable env n = (case map_of env n of None \<Rightarrow> [] | Some v \<Rightarrow> v)"

text \<open>
  The output of \<^verbatim>\<open>eval echo "\$$var"\<close>: \<^verbatim>\<open>eval\<close> runs \<^verbatim>\<open>echo $NAME\<close>, whose operand is
  not quoted, so the value is split into fields and expanded before \<^verbatim>\<open>echo\<close> joins
  the words again.
\<close>

definition eval_echo :: "host \<Rightarrow> namespace \<Rightarrow> environment \<Rightarrow> string \<Rightarrow> string" where
  "eval_echo h ns env var = echo_builtin h (word_expansion h ns (sh_variable env var))"

text \<open>The operand of \<^verbatim>\<open>echo "    $var: \"$value\","\<close>: the value goes in as it is.\<close>

definition entry_text :: "string \<Rightarrow> string \<Rightarrow> string" where
  \<open>entry_text var val = ''    '' @ var @ '': "'' @ val @ ''",''\<close>

subsection \<open>Commands\<close>

definition config_dir :: path where
  "config_dir = [''var'', ''www'', ''app'', ''config'']"

definition front_env_js :: path where
  "front_env_js = [''var'', ''www'', ''app'', ''config'', ''front.env.js'']"

definition ENV_VARS :: string where
  "ENV_VARS = ''STAGE API_URL''"

definition log_event :: "event \<Rightarrow> sh_state \<Rightarrow> sh_state" where
  "log_event e s = s\<lparr>trace := trace s @ [e]\<rparr>"

text \<open>\<^verbatim>\<open>echo ...\<close> to the standard output.\<close>

definition echo_stdout :: "host \<Rightarrow> string list \<Rightarrow> sh_state \<Rightarrow> sh_state" where
  "echo_stdout h args s = log_event (Stdout (echo_builtin h args)) (s\<lparr>status := 0\<rparr>)"

text \<open>
  \<^verbatim>\<open>mkdir -p\<close>: nothing to do for a directory that is there; otherwise the directory and
  its ancestors are made. That fails on a read-only filesystem, and where the path or
  one of its ancestors is a regular file.
\<close>

definition mkdir_p :: "path \<Rightarrow> sh_state \<Rightarrow> sh_state" where
  "mkdir_p p s =
     (if directory (fs s) p then log_event (Mkdir p True) (s\<lparr>status := 0\<rparr>)
      else if read_only (fs s) \<or> (\<exists>q\<in>set (prefixes p). files (fs s) q \<noteq> None)
      then log_event (Mkdir p False) (s\<lparr>status := 1\<rparr>)
      else log_event (Mkdir p True)
             (s\<lparr>fs := (fs s)\<lparr>dirs := insert p (dirs (fs s))\<rparr>, status := 0\<rparr>))"

text \<open>
  A redirection opens its file before the command runs. It fails on a read-only
  filesystem, in a directory that is not there, and where the path is a directory; then
  the command is not run, its status is not zero (1 here; the number differs between
  shells, and the script never reads it), and the script goes on with the next command.
\<close>

definition can_open :: "filesystem \<Rightarrow> path \<Rightarrow> bool" where
  "can_open f p = (\<not> read_only f \<and> directory f (butlast p) \<and> \<not> directory f p)"

text \<open>\<^verbatim>\<open>echo ... > file\<close>: the file is created or truncated, then holds the output.\<close>

definition redirect_write :: "path \<Rightarrow> string \<Rightarrow> sh_state \<Rightarrow> sh_state" where
  "redirect_write p text s =
     (if can_open (fs s) p
      then log_event (Open_write p True)
             (s\<lparr>fs := (fs s)\<lparr>files := (files (fs s))(p \<mapsto> text)\<rparr>, status := 0\<rparr>)
      else log_event (Open_write p False) (s\<lparr>status := 1\<rparr>))"

text \<open>\<^verbatim>\<open>echo ... >> file\<close>: the output goes after what the file holds.\<close>

definition redirect_append :: "path \<Rightarrow> string \<Rightarrow> sh_state \<Rightarrow> sh_state" where
  "redirect_append p text s =
     (if can_open (fs s) p
      then log_event (Open_append p True)
             (s\<lparr>fs := (fs s)\<lparr>files := (files (fs s))
                     (p \<mapsto> (case files (fs s) p of None \<Rightarrow> [] | Some old \<Rightarrow> old) @ text)\<rparr>,
                status := 0\<rparr>)
      else log_event (Open_append p False) (s\<lparr>status := 1\<rparr>))"

text \<open>
  \<^verbatim>\<open>nginx -g "daemon off;"\<close>: the server runs in the foreground on the filesystem as it
  is at that moment; the script ends when it does, with its status.
\<close>

definition nginx :: "host \<Rightarrow> sh_state \<Rightarrow> sh_state" where
  "nginx h s =
     log_event (Server_start (files (fs s) front_env_js)) (s\<lparr>status := nginx_status h\<rparr>)"

subsection \<open>The script\<close>

text \<open>
  The body of the inner loop:
  \<^verbatim>\<open>value=$(eval echo "\$$var"); echo "    $var: \"$value\"," >> .../front.env.js\<close>
\<close>

definition variable_line :: "host \<Rightarrow> namespace \<Rightarrow> environment \<Rightarrow> string \<Rightarrow> string" where
  "variable_line h ns env var =
     (let val = command_substitution (eval_echo h ns env var)
      in echo_builtin h [entry_text var val])"

definition add_variable :: "host \<Rightarrow> environment \<Rightarrow> string \<Rightarrow> sh_state \<Rightarrow> sh_state" where
  "add_variable h env var s =
     redirect_append front_env_js (variable_line h (namespace (fs s)) env var) s"

text \<open>
  The body of the outer loop:
  \<^verbatim>\<open>for var in $(env | grep -E "^$prefix" | awk -F= '{print $1}'); do ... done\<close>
\<close>

definition add_prefix :: "host \<Rightarrow> environment \<Rightarrow> string \<Rightarrow> sh_state \<Rightarrow> sh_state" where
  "add_prefix h env p s =
     fold (add_variable h env)
       (word_expansion h (namespace (fs s)) (command_substitution (matching_names env p))) s"

definition start_sh :: "host \<Rightarrow> environment \<Rightarrow> sh_state \<Rightarrow> sh_state" where
  "start_sh h env s0 =
     (let s1 = echo_stdout h [''Configuring environment variables...''] s0;
          s2 = mkdir_p config_dir s1;
          s3 = redirect_write front_env_js (echo_builtin h [''window._env_ = {'']) s2;
          s4 = fold (add_prefix h env) (word_expansion h (namespace (fs s3)) ENV_VARS) s3;
          s5 = redirect_append front_env_js (echo_builtin h [''};'']) s4;
          s6 = echo_stdout h [''Starting Nginx...''] s5
      in nginx h s6)"

text \<open>
  The text that the writes of the script put together, as a function of the environment
  and of the names that exist when the loops run.
\<close>

definition front_env_js_entries :: "host \<Rightarrow> namespace \<Rightarrow> environment \<Rightarrow> string list" where
  "front_env_js_entries h ns env =
     concat (map (\<lambda>p.
         map (variable_line h ns env)
           (word_expansion h ns (command_substitution (matching_names env p))))
       (word_expansion h ns ENV_VARS))"

definition front_env_js_text :: "host \<Rightarrow> namespace \<Rightarrow> environment \<Rightarrow> string" where
  "front_env_js_text h ns env =
     echo_builtin h [''window._env_ = {''] @ concat (front_env_js_entries h ns env)
       @ echo_builtin h [''};'']"


subsection \<open>Environments within the reach of the model\<close>

text \<open>
  \<^verbatim>\<open>eval\<close> runs its operand as shell text, and \<^verbatim>\<open>grep\<close> reads the output of \<^verbatim>\<open>env\<close>
  line by line. The definitions above follow the script for an environment in which
  every name is a shell name (a letter or underscore, then letters, digits and
  underscores) other than the four variables the script assigns itself, no name occurs
  twice, and no value holds a newline. That is \<open>wf_env\<close>; the statements about the
  script are made for such environments.
\<close>

definition name_start :: string where
  "name_start = ''ABCDEFGHIJKLMNOPQRSTUVWXYZabcdefghijklmnopqrstuvwxyz_''"

definition digits :: string where
  "digits = ''0123456789''"

definition shell_name :: "string \<Rightarrow> bool" where
  "shell_name n =
     (case n of [] \<Rightarrow> False
      | c # cs \<Rightarrow> c \<in> set name_start \<and> (\<forall>d\<in>set cs. d \<in> set name_start \<or> d \<in> set digits))"

definition script_variables :: "string list" where
  "script_variables = [''ENV_VARS'', ''prefix'', ''var'', ''value'']"

definition wf_env :: "environment \<Rightarrow> bool" where
  "wf_env env =
     (distinct (map fst env) \<and>
      (\<forall>(n, v)\<in>set env. shell_name n \<and> n \<notin> set script_variables \<and> CHR 0x0A \<notin> set v))"

text \<open>A name is whitelisted when it begins with one of the words of \<^verbatim>\<open>ENV_VARS\<close>.\<close>

definition whitelisted :: "string \<Rightarrow> bool" where
  "whitelisted n = (\<exists>p\<in>set (field_split ENV_VARS). prefix p n)"

definition selected :: "environment \<Rightarrow> environment" where
  "selected env = concat (map (\<lambda>p. filter (\<lambda>(n, v). prefix p n) env) (field_split ENV_VARS))"

text \<open>
  A plain value is one on which every shell agrees: no double quote, backslash or
  carriage return, no pattern character, and no hyphen at the start of its first word
  that \<^verbatim>\<open>echo\<close> could take for an option.
\<close>

definition plain_value :: "string \<Rightarrow> bool" where
  \<open>plain_value v =
     ((\<forall>c\<in>set v. c \<notin> set ''"*?['' \<and> c \<noteq> CHR 0x5C \<and> c \<noteq> CHR 0x0D) \<and>
      (case field_split v of [] \<Rightarrow> True | w # _ \<Rightarrow> \<not> prefix ''-'' w))\<close>

subsection \<open>Loading the generated script\<close>

text \<open>
  What it means here that a script engine can load \<^verbatim>\<open>front.env.js\<close>: the text is the
  one statement \<^verbatim>\<open>window._env_ = { ... };\<close> laid out as the generator writes it, a first
  line \<^verbatim>\<open>window._env_ = {\<close>, then lines of four spaces, a property name that is an
  identifier, a colon and a space, a string literal in double quotes and a comma, and a
  last line \<^verbatim>\<open>};\<close>. Such a text is a script of the language, and running it assigns the
  object with these properties, a later one replacing an earlier one of the same name.
  A string literal ends at the first double quote; it holds no backslash and no line
  break. The texts that this reader refuses below are checked against the grammar by
  hand.
\<close>

definition identifier_part :: "char \<Rightarrow> bool" where
  "identifier_part d = (d \<in> set name_start \<or> d = CHR ''$'' \<or> d \<in> set digits)"

definition identifier_name :: "string \<Rightarrow> bool" where
  "identifier_name k =
     (case k of [] \<Rightarrow> False
      | c # cs \<Rightarrow> (c \<in> set name_start \<or> c = CHR ''$'') \<and>
          (\<forall>d\<in>set cs. d \<in> set name_start \<or> d = CHR ''$'' \<or> d \<in> set digits))"

definition string_character :: "char \<Rightarrow> bool" where
  "string_character c = (c \<noteq> CHR 0x22 \<and> c \<noteq> CHR 0x5C \<and> c \<noteq> CHR 0x0A \<and> c \<noteq> CHR 0x0D)"

text \<open>A text that can stand between the quotes of a string literal as it is.\<close>

definition literal_text :: "string \<Rightarrow> bool" where
  "literal_text x = (\<forall>c\<in>set x. string_character c)"

definition strip_prefix :: "'a list \<Rightarrow> 'a list \<Rightarrow> 'a list option" where
  "strip_prefix p s = (if prefix p s then Some (drop (length p) s) else None)"

definition parse_member :: "string \<Rightarrow> (string \<times> string) option" where
  \<open>parse_member l =
     (case strip_prefix ''    '' l of
        None \<Rightarrow> None
      | Some r \<Rightarrow>
          (let k = takeWhile identifier_part r in
           if \<not> identifier_name k then None
           else (case strip_prefix '': "'' (dropWhile identifier_part r) of
                   None \<Rightarrow> None
                 | Some q \<Rightarrow>
                     (if dropWhile string_character q = ''",''
                      then Some (k, takeWhile string_character q)
                      else None))))\<close>

definition parse_front_env_js :: "string \<Rightarrow> (string \<times> string) list option" where
  "parse_front_env_js text =
     (case lines_of text of
        [] \<Rightarrow> None
      | first # rest \<Rightarrow>
          (if first = ''window._env_ = {'' \<and> rest \<noteq> [] \<and> last rest = ''};''
           then those (map parse_member (butlast rest))
           else None))"

text \<open>
  The value of \<^verbatim>\<open>window._env_\<close> after the page has asked for the script: the object it
  assigns, or nothing when the script does not load.
\<close>

definition load_front_env_js :: "string \<Rightarrow> (string \<rightharpoonup> string) option" where
  "load_front_env_js text = map_option (\<lambda>ms. map_of (rev ms)) (parse_front_env_js text)"

subsection \<open>Concrete hosts, containers and environments\<close>

text \<open>
  A host on which no pattern matches a file, \<^verbatim>\<open>echo\<close> takes its options as the
  \<^verbatim>\<open>echo\<close> of BusyBox does (leading operands made of a hyphen and letters among
  \<^verbatim>\<open>n\<close>, \<^verbatim>\<open>e\<close>, \<^verbatim>\<open>E\<close>) and prints operands with a backslash as they are, and
  \<^verbatim>\<open>nginx\<close> ends with status 0; the image's filesystem after the build
  (\<^verbatim>\<open>COPY --from=build /app/dist /var/www/app/\<close>); a container started on it, one whose
  serving root lies on a read-only volume, and one whose read-only volume holds the
  file of an earlier start.
\<close>

definition busybox_option :: "string \<Rightarrow> bool" where
  "busybox_option a =
     (case a of [] \<Rightarrow> False
      | c # cs \<Rightarrow> c = CHR ''-'' \<and> cs \<noteq> [] \<and> (\<forall>d\<in>set cs. d \<in> set ''neE''))"

definition busybox_echo_options :: "string list \<Rightarrow> nat \<times> bool" where
  "busybox_echo_options candidates =
     (let opts = takeWhile busybox_option candidates
      in (length opts, \<exists>a\<in>set opts. CHR ''n'' \<in> set a))"

definition plain_host :: host where
  "plain_host =
     \<lparr>pathname_expansion = (\<lambda>ns w. [w]),
      echo_options = busybox_echo_options,
      echo_other = (\<lambda>args. unwords args @ [CHR 0x0A]),
      nginx_status = 0\<rparr>"

definition image_fs :: filesystem where
  "image_fs =
     \<lparr>dirs = {[''var'', ''www'', ''app'']},
      files = [[''var'', ''www'', ''app'', ''index.html''] \<mapsto> ''<html></html>''],
      read_only = False\<rparr>"

definition container :: sh_state where
  "container = \<lparr>fs = image_fs, status = 0, trace = []\<rparr>"




text \<open>A container in which a regular file holds the place of the directory \<^verbatim>\<open>config\<close>.\<close>

definition blocked_container :: sh_state where
  "blocked_container =
     \<lparr>fs = image_fs\<lparr>files := (files image_fs)([''var'', ''www'', ''app'', ''config''] \<mapsto> [])\<rparr>,
      status = 0, trace = []\<rparr>"




section \<open>Properties of the accessor\<close>

lemma nullish_coalesce_left: "\<not> nullish a \<Longrightarrow> nullish_coalesce a b = Inr a"
  by (simp add: nullish_coalesce_def)

lemma nullish_coalesce_right: "nullish a \<Longrightarrow> nullish_coalesce a b = b"
  by (simp add: nullish_coalesce_def)

lemma window_env_member_Some:
  "window_env w = Some obj \<Longrightarrow>
   window_env_member w k = Inr (case obj k of None \<Rightarrow> Undefined | Some s \<Rightarrow> Str s)"
  by (simp add: window_env_member_def)

lemmas constant_defs = STAGE_def API_URL_def ENV_TEST_def


lemma in_constants:
  "(k, c) \<in> set constants \<longleftrightarrow>
     (k = ''STAGE'' \<and> c = STAGE) \<or> (k = ''API_URL'' \<and> c = API_URL) \<or> (k = ''ENV_TEST'' \<and> c = ENV_TEST)"
  by (auto simp: constants_def)

lemma constant_unfold:
  "(k, c) \<in> set constants \<Longrightarrow>
   c meta w = nullish_coalesce (import_meta_env_member meta k) (window_env_member w k)"
  by (auto simp: in_constants constant_defs)

text \<open>
  Claim C3. For each of the exported constants, the value is the one of
  \<^verbatim>\<open>import.meta.env\<close> when that is neither \<open>undefined\<close> nor \<open>null\<close>; otherwise it is the
  result of reading the key from \<^verbatim>\<open>window._env_\<close>, which is the entry of the runtime
  configuration object when that object is there. The build-time value wins whatever
  the runtime object holds.
\<close>

theorem accessor_precedence:
  assumes "(k, c) \<in> set constants"
  shows "(\<not> nullish (import_meta_env_member meta k) \<longrightarrow>
            c meta w = Inr (import_meta_env_member meta k))
       \<and> (nullish (import_meta_env_member meta k) \<longrightarrow> c meta w = window_env_member w k)
       \<and> (nullish (import_meta_env_member meta k) \<and> window_env w = Some obj \<longrightarrow>
            c meta w = Inr (case obj k of None \<Rightarrow> Undefined | Some s \<Rightarrow> Str s))"
  using constant_unfold [OF assms, of meta w]
  by (simp add: nullish_coalesce_def window_env_member_Some)

theorem accessor_precedence_witness:
  "STAGE [''STAGE'' \<mapsto> Str ''QAS''] \<lparr>window_env = Some [''STAGE'' \<mapsto> ''PROD'']\<rparr> = Inr (Str ''QAS'')
   \<and> API_URL Map.empty \<lparr>window_env = Some [''API_URL'' \<mapsto> ''http://example.com/api'']\<rparr>
       = Inr (Str ''http://example.com/api'')"
proof -
  have m1: "(''STAGE'', STAGE) \<in> set constants" and m2: "(''API_URL'', API_URL) \<in> set constants"
    by (simp_all add: constants_def)
  show ?thesis
    using accessor_precedence [OF m1, of "[''STAGE'' \<mapsto> Str ''QAS'']"
            "\<lparr>window_env = Some [''STAGE'' \<mapsto> ''PROD'']\<rparr>" "[''STAGE'' \<mapsto> ''PROD'']"]
          accessor_precedence [OF m2, of Map.empty
            "\<lparr>window_env = Some [''API_URL'' \<mapsto> ''http://example.com/api'']\<rparr>"
            "[''API_URL'' \<mapsto> ''http://example.com/api'']"]
    by (simp add: nullish_def import_meta_env_member_def window_env_member_def)
qed

text \<open>
  When the global was never assigned (the script was not served or did not load) and
  the build-time value is missing, reading the key throws.
\<close>

lemma constant_without_runtime_object:
  assumes "(k, c) \<in> set constants" and "nullish (import_meta_env_member meta k)"
    and "window_env w = None"
  shows "c meta w = Inl TypeError"
  using constant_unfold [OF assms(1), of meta w] assms(2-)
  by (simp add: nullish_coalesce_def window_env_member_def)

text \<open>
  Claim C6, as amended. When \<^verbatim>\<open>import.meta.env\<close> gives no value for the key, the
  constant is \<open>undefined\<close>, a value and not an exception, exactly when the runtime
  configuration object is there and has no entry for the key; and reading the constant
  throws a \<open>TypeError\<close> exactly when the runtime configuration object is not there at
  all.
\<close>

theorem accessor_missing_key:
  assumes "(k, c) \<in> set constants"
    and "nullish (import_meta_env_member meta k)"
  shows "(c meta w = Inr Undefined \<longleftrightarrow> (\<exists>obj. window_env w = Some obj \<and> obj k = None))
       \<and> (c meta w = Inl TypeError \<longleftrightarrow> window_env w = None)"
proof (cases "window_env w")
  case None
  with constant_without_runtime_object [OF assms] show ?thesis by simp
next
  case (Some obj)
  from constant_unfold [OF assms(1), of meta w] assms(2) Some
  have "c meta w = Inr (case obj k of None \<Rightarrow> Undefined | Some s \<Rightarrow> Str s)"
    by (simp add: nullish_coalesce_def window_env_member_Some)
  with Some show ?thesis by (auto split: option.splits)
qed

theorem accessor_missing_key_witness:
  "(''ENV_TEST'', ENV_TEST) \<in> set constants
   \<and> nullish (import_meta_env_member Map.empty ''ENV_TEST'')
   \<and> ENV_TEST Map.empty \<lparr>window_env = Some Map.empty\<rparr> = Inr Undefined
   \<and> (''STAGE'', STAGE) \<in> set constants
   \<and> nullish (import_meta_env_member [''STAGE'' \<mapsto> Null] ''STAGE'')
   \<and> STAGE [''STAGE'' \<mapsto> Null] \<lparr>window_env = Some [''API_URL'' \<mapsto> ''x'']\<rparr> = Inr Undefined
   \<and> STAGE [''STAGE'' \<mapsto> Null] \<lparr>window_env = None\<rparr> = Inl TypeError"
proof -
  have m1: "(''ENV_TEST'', ENV_TEST) \<in> set constants" and m2: "(''STAGE'', STAGE) \<in> set constants"
    by (simp_all add: constants_def)
  have n1: "nullish (import_meta_env_member Map.empty ''ENV_TEST'')"
    and n2: "nullish (import_meta_env_member [''STAGE'' \<mapsto> Null] ''STAGE'')"
    by (simp_all add: nullish_def import_meta_env_member_def)
  from accessor_missing_key [OF m1 n1, of "\<lparr>window_env = Some Map.empty\<rparr>"]
  have "ENV_TEST Map.empty \<lparr>window_env = Some Map.empty\<rparr> = Inr Undefined" by simp
  moreover from accessor_missing_key [OF m2 n2, of "\<lparr>window_env = Some [''API_URL'' \<mapsto> ''x'']\<rparr>"]
  have "STAGE [''STAGE'' \<mapsto> Null] \<lparr>window_env = Some [''API_URL'' \<mapsto> ''x'']\<rparr> = Inr Undefined"
    by simp
  moreover from accessor_missing_key [OF m2 n2, of "\<lparr>window_env = None\<rparr>"]
  have "STAGE [''STAGE'' \<mapsto> Null] \<lparr>window_env = None\<rparr> = Inl TypeError"
    by simp
  ultimately show ?thesis using m1 m2 n1 n2 by blast
qed

text \<open>
  The claim does not hold as it stands: with no build-time value and the global
  \<^verbatim>\<open>window._env_\<close> never assigned, neither source provides a value for the key, and
  reading the constant throws.
\<close>

theorem accessor_missing_object_counterexample:
  "(''ENV_TEST'', ENV_TEST) \<in> set constants
   \<and> import_meta_env_member Map.empty ''ENV_TEST'' = Undefined
   \<and> window_env \<lparr>window_env = None\<rparr> = None
   \<and> ENV_TEST Map.empty \<lparr>window_env = None\<rparr> = Inl TypeError
   \<and> ENV_TEST Map.empty \<lparr>window_env = None\<rparr> \<noteq> Inr Undefined"
  by (simp add: constants_def import_meta_env_member_def ENV_TEST_def nullish_coalesce_def
      nullish_def window_env_member_def)

text \<open>
  Claim C9. A build-time value that is the empty string is returned as it is, and so is
  every build-time value other than \<open>undefined\<close> and \<open>null\<close> (\<open>false\<close> and \<open>0\<close> among
  them): the runtime object is read only when the build-time value is \<open>undefined\<close>,
  \<open>null\<close> or missing.
\<close>

theorem accessor_falsy_build_value:
  assumes "(k, c) \<in> set constants"
  shows "(meta k = Some (Str '''') \<longrightarrow> c meta w = Inr (Str ''''))
       \<and> (\<forall>v. meta k = Some v \<longrightarrow> v \<noteq> Undefined \<longrightarrow> v \<noteq> Null \<longrightarrow> c meta w = Inr v)
       \<and> (meta k = None \<or> meta k = Some Undefined \<or> meta k = Some Null \<longrightarrow>
            c meta w = window_env_member w k)"
  using constant_unfold [OF assms, of meta w]
  by (auto simp: nullish_coalesce_def nullish_def import_meta_env_member_def)

theorem accessor_falsy_build_value_witness:
  "STAGE [''STAGE'' \<mapsto> Str ''''] \<lparr>window_env = Some [''STAGE'' \<mapsto> ''PROD'']\<rparr> = Inr (Str '''')
   \<and> API_URL [''API_URL'' \<mapsto> Bool False] \<lparr>window_env = Some [''API_URL'' \<mapsto> ''u'']\<rparr> = Inr (Bool False)
   \<and> ENV_TEST [''ENV_TEST'' \<mapsto> Null] \<lparr>window_env = Some [''ENV_TEST'' \<mapsto> ''t'']\<rparr> = Inr (Str ''t'')"
proof -
  have m1: "(''STAGE'', STAGE) \<in> set constants" and m2: "(''API_URL'', API_URL) \<in> set constants"
    and m3: "(''ENV_TEST'', ENV_TEST) \<in> set constants"
    by (simp_all add: constants_def)
  show ?thesis
    using accessor_falsy_build_value [OF m1, of "[''STAGE'' \<mapsto> Str '''']"
            "\<lparr>window_env = Some [''STAGE'' \<mapsto> ''PROD'']\<rparr>"]
          accessor_falsy_build_value [OF m2, of "[''API_URL'' \<mapsto> Bool False]"
            "\<lparr>window_env = Some [''API_URL'' \<mapsto> ''u'']\<rparr>"]
          accessor_falsy_build_value [OF m3, of "[''ENV_TEST'' \<mapsto> Null]"
            "\<lparr>window_env = Some [''ENV_TEST'' \<mapsto> ''t'']\<rparr>"]
    by (simp add: window_env_member_def)
qed


section \<open>Properties of the build-time transform\<close>

lemma index_of_None: "index_of pat s = None \<Longrightarrow> s \<noteq> u @ pat @ v"
proof (induction s arbitrary: u)
  case Nil
  then show ?case by (auto split: if_splits)
next
  case (Cons c cs)
  from Cons.prems have np: "\<not> prefix pat (c # cs)" and rec: "index_of pat cs = None"
    by (auto split: if_splits)
  show ?case
  proof (cases u)
    case Nil
    with np show ?thesis by (auto simp: prefix_def)
  next
    case (Cons a u')
    with Cons.IH [OF rec, of u'] show ?thesis by auto
  qed
qed

lemma index_of_Some:
  "index_of pat s = Some i \<Longrightarrow> i \<le> length s \<and> prefix pat (drop i s) \<and> (\<forall>j<i. \<not> prefix pat (drop j s))"
proof (induction s arbitrary: i)
  case Nil
  then show ?case by (auto split: if_splits)
next
  case (Cons c cs)
  show ?case
  proof (cases "prefix pat (c # cs)")
    case True
    with Cons.prems show ?thesis by auto
  next
    case False
    with Cons.prems obtain i' where i: "i = Suc i'" and rec: "index_of pat cs = Some i'"
      by auto
    from Cons.IH [OF rec] False show ?thesis
      by (auto simp: i less_Suc_eq_0_disj)
  qed
qed

lemma index_of_split:
  assumes "index_of pat s = Some i"
  shows "s = take i s @ pat @ drop (i + length pat) s"
proof -
  from index_of_Some [OF assms] obtain r where "drop i s = pat @ r"
    by (auto simp: prefix_def)
  then have "drop (i + length pat) s = r"
    by (metis add.commute append_eq_conv_conj drop_drop)
  with \<open>drop i s = pat @ r\<close> show ?thesis
    by (metis append_take_drop_id)
qed

lemma get_substitution_plain:
  "CHR ''$'' \<notin> set rep \<Longrightarrow> get_substitution m b a rep = rep"
  by (induction m b a rep rule: get_substitution.induct) auto

lemma script_tag_plain: "CHR ''$'' \<notin> set script_tag"
  by (simp add: script_tag_def)

lemma transformIndexHtml_cases:
  "transformIndexHtml html =
     (case index_of ENV_placeholder html of
        None \<Rightarrow> html
      | Some i \<Rightarrow> take i html @ script_tag @ drop (i + length ENV_placeholder) html)"
  by (simp add: transformIndexHtml_def string_replace_def Let_def
      get_substitution_plain [OF script_tag_plain] split: option.split)

text \<open>
  Claim C7. An HTML text in which the placeholder does not occur is returned unchanged.
  The transform is a total function of the text: it has no failing branch.
\<close>

theorem transform_without_placeholder:
  assumes "\<not> (\<exists>before after. html = before @ ENV_placeholder @ after)"
  shows "transformIndexHtml html = html"
proof (cases "index_of ENV_placeholder html")
  case None
  then show ?thesis by (simp add: transformIndexHtml_cases)
next
  case (Some i)
  from index_of_split [OF Some] assms show ?thesis by blast
qed

theorem transform_without_placeholder_witness:
  "\<not> (\<exists>before after. ''<html><head></head></html>'' = before @ ENV_placeholder @ after)
   \<and> transformIndexHtml ''<html><head></head></html>'' = ''<html><head></head></html>''"
proof -
  have "index_of ENV_placeholder ''<html><head></head></html>'' = None"
    by (simp add: ENV_placeholder_def)
  then have absent:
    "\<not> (\<exists>before after. ''<html><head></head></html>'' = before @ ENV_placeholder @ after)"
    using index_of_None by blast
  from transform_without_placeholder [OF absent] absent show ?thesis
    by blast
qed

lemma mismatch_not_prefix: "mismatch xs ys \<Longrightarrow> \<not> prefix xs (ys @ w)"
proof
  assume m: "mismatch xs ys" and p: "prefix xs (ys @ w)"
  from m obtain i where i: "i < length xs" "i < length ys" "xs ! i \<noteq> ys ! i"
    by (auto simp: mismatch_def list_ex_iff in_set_zip)
  from p obtain r where "ys @ w = xs @ r" by (auto simp: prefix_def)
  then have "(ys @ w) ! i = (xs @ r) ! i" by simp
  with i show False by (simp add: nth_append)
qed

lemma occurrences_Nil_pat: "pat \<noteq> [] \<Longrightarrow> occurrences pat [] = 0"
  by simp

lemma occurrences_append_block:
  assumes "pat \<noteq> []" and "no_overlap pat x"
  shows "occurrences pat (pre @ x @ post) = occurrences pat pre + occurrences pat (x @ post)"
proof (induction pre)
  case Nil
  with assms(1) show ?case by simp
next
  case (Cons c cs)
  have "prefix pat ((c # cs) @ x @ post) \<longleftrightarrow> prefix pat (c # cs)"
  proof
    assume p: "prefix pat ((c # cs) @ x @ post)"
    show "prefix pat (c # cs)"
    proof (rule ccontr)
      assume n: "\<not> prefix pat (c # cs)"
      with p obtain us where us: "pat = (c # cs) @ us" "prefix us (x @ post)"
        unfolding prefix_append by blast
      from n us have "us \<noteq> []" by auto
      with us(1) have k: "1 \<le> length (c # cs)" "length (c # cs) < length pat"
        and d: "drop (length (c # cs)) pat = us"
        by auto
      from assms(2) k have "mismatch (drop (length (c # cs)) pat) x"
        by (simp add: no_overlap_def list_all_iff)
      with d us(2) mismatch_not_prefix show False by blast
    qed
  next
    assume "prefix pat (c # cs)"
    then show "prefix pat ((c # cs) @ x @ post)" by (rule prefix_prefix)
  qed
  with Cons.IH show ?case by simp
qed

lemma occurrences_skip:
  assumes "\<forall>j<length y. mismatch pat (drop j y)"
  shows "occurrences pat (y @ post) = occurrences pat post"
  using assms
proof (induction y)
  case Nil
  then show ?case by simp
next
  case (Cons c cs)
  from Cons.prems have "mismatch pat (drop 0 (c # cs))" by blast
  then have np: "\<not> prefix pat ((c # cs) @ post)"
    using mismatch_not_prefix by fastforce
  have "\<forall>j<length cs. mismatch pat (drop j cs)"
  proof (intro allI impI)
    fix j assume "j < length cs"
    then have "Suc j < length (c # cs)" by simp
    with Cons.prems have "mismatch pat (drop (Suc j) (c # cs))" by blast
    then show "mismatch pat (drop j cs)" by simp
  qed
  with Cons.IH np show ?case by simp
qed

lemma occurrences_block:
  assumes "x \<noteq> []" and "no_inner pat x"
  shows "occurrences pat (x @ post) = (if prefix pat (x @ post) then 1 else 0) + occurrences pat post"
proof -
  from assms(1) obtain c cs where x: "x = c # cs" by (cases x) auto
  have "\<forall>j<length cs. mismatch pat (drop j cs)"
  proof (intro allI impI)
    fix j assume "j < length cs"
    then have "1 \<le> Suc j" "Suc j < length x" by (simp_all add: x)
    with assms(2) have "mismatch pat (drop (Suc j) x)"
      by (simp add: no_inner_def list_all_iff)
    then show "mismatch pat (drop j cs)" by (simp add: x)
  qed
  from occurrences_skip [OF this, of post] show ?thesis by (simp add: x)
qed

lemma PP_inner: "no_inner ENV_placeholder ENV_placeholder" by code_simp
lemma PR_inner: "no_inner ENV_placeholder script_tag" by code_simp
lemma RP_inner: "no_inner script_tag ENV_placeholder" by code_simp
lemma RR_inner: "no_inner script_tag script_tag" by code_simp
lemma PP_overlap: "no_overlap ENV_placeholder ENV_placeholder" by code_simp
lemma PR_overlap: "no_overlap ENV_placeholder script_tag" by code_simp
lemma RP_overlap: "no_overlap script_tag ENV_placeholder" by code_simp
lemma RR_overlap: "no_overlap script_tag script_tag" by code_simp
lemma PR_mismatch: "mismatch ENV_placeholder script_tag" by code_simp
lemma RP_mismatch: "mismatch script_tag ENV_placeholder" by code_simp

lemma ENV_placeholder_not_Nil: "ENV_placeholder \<noteq> []" by (simp add: ENV_placeholder_def)
lemma script_tag_not_Nil: "script_tag \<noteq> []" by (simp add: script_tag_def)

lemma placeholder_count_with_placeholder:
  "occurrences ENV_placeholder (pre @ ENV_placeholder @ post)
     = occurrences ENV_placeholder pre + 1 + occurrences ENV_placeholder post"
  by (simp add: occurrences_append_block [OF ENV_placeholder_not_Nil PP_overlap]
      occurrences_block [OF ENV_placeholder_not_Nil PP_inner])

lemma placeholder_count_with_script:
  "occurrences ENV_placeholder (pre @ script_tag @ post)
     = occurrences ENV_placeholder pre + occurrences ENV_placeholder post"
  by (simp add: occurrences_append_block [OF ENV_placeholder_not_Nil PR_overlap]
      occurrences_block [OF script_tag_not_Nil PR_inner]
      mismatch_not_prefix [OF PR_mismatch])

lemma script_count_with_placeholder:
  "occurrences script_tag (pre @ ENV_placeholder @ post)
     = occurrences script_tag pre + occurrences script_tag post"
  by (simp add: occurrences_append_block [OF script_tag_not_Nil RP_overlap]
      occurrences_block [OF ENV_placeholder_not_Nil RP_inner]
      mismatch_not_prefix [OF RP_mismatch])

lemma script_count_with_script:
  "occurrences script_tag (pre @ script_tag @ post)
     = occurrences script_tag pre + 1 + occurrences script_tag post"
  by (simp add: occurrences_append_block [OF script_tag_not_Nil RR_overlap]
      occurrences_block [OF script_tag_not_Nil RR_inner])

lemma index_of_None_occurrences: "index_of pat s = None \<Longrightarrow> occurrences pat s = 0"
  by (induction s) (auto split: if_splits)

lemma transformIndexHtml_first:
  assumes "0 < occurrences ENV_placeholder html"
  obtains i where "index_of ENV_placeholder html = Some i"
    and "html = take i html @ ENV_placeholder @ drop (i + length ENV_placeholder) html"
    and "transformIndexHtml html = take i html @ script_tag @ drop (i + length ENV_placeholder) html"
proof -
  from assms index_of_None_occurrences [of ENV_placeholder html]
  obtain i where i: "index_of ENV_placeholder html = Some i"
    by (cases "index_of ENV_placeholder html") auto
  show thesis
    by (rule that [OF i index_of_split [OF i]]) (simp add: transformIndexHtml_cases i)
qed

text \<open>
  Claim C4, as amended. For an HTML text that contains the placeholder exactly once, the
  output of the transform contains no placeholder, and the script reference
  \<^verbatim>\<open><script src="./config/front.env.js"></script>\<close> once more than the input did:
  exactly once when the input had none.
\<close>

theorem transform_single_placeholder:
  assumes "occurrences ENV_placeholder html = 1"
  shows "occurrences ENV_placeholder (transformIndexHtml html) = 0
       \<and> occurrences script_tag (transformIndexHtml html) = occurrences script_tag html + 1
       \<and> (occurrences script_tag html = 0 \<longrightarrow>
            occurrences script_tag (transformIndexHtml html) = 1)"
proof -
  from assms have "0 < occurrences ENV_placeholder html" by simp
  then obtain i where
    h: "html = take i html @ ENV_placeholder @ drop (i + length ENV_placeholder) html"
    and t: "transformIndexHtml html = take i html @ script_tag @ drop (i + length ENV_placeholder) html"
    by (rule transformIndexHtml_first)
  define pre post where "pre = take i html" and "post = drop (i + length ENV_placeholder) html"
  from h t have h': "html = pre @ ENV_placeholder @ post"
    and t': "transformIndexHtml html = pre @ script_tag @ post"
    by (simp_all add: pre_def post_def)
  from assms have "occurrences ENV_placeholder (pre @ ENV_placeholder @ post) = 1"
    using h' by simp
  then have z: "occurrences ENV_placeholder pre = 0" "occurrences ENV_placeholder post = 0"
    by (simp_all add: placeholder_count_with_placeholder)
  have "occurrences script_tag html = occurrences script_tag pre + occurrences script_tag post"
    by (subst h') (rule script_count_with_placeholder)
  with z show ?thesis
    by (simp add: t' placeholder_count_with_script script_count_with_script)
qed

theorem transform_single_placeholder_witness:
  "occurrences ENV_placeholder ''<head><!-- ENV --></head>'' = 1
   \<and> occurrences ENV_placeholder (transformIndexHtml ''<head><!-- ENV --></head>'') = 0
   \<and> occurrences script_tag (transformIndexHtml ''<head><!-- ENV --></head>'') = 1"
proof -
  have one: "occurrences ENV_placeholder ''<head><!-- ENV --></head>'' = 1"
    by (simp add: ENV_placeholder_def)
  have none: "occurrences script_tag ''<head><!-- ENV --></head>'' = 0"
    by (simp add: script_tag_def)
  from transform_single_placeholder [OF one] one none show ?thesis
    by simp
qed

text \<open>
  The count of script references is not always one: an input that already holds the
  reference, beside the one placeholder, comes out with two.
\<close>

theorem transform_existing_script_counterexample:
  \<open>occurrences ENV_placeholder
     ''<script src="./config/front.env.js"></script><!-- ENV -->'' = 1
   \<and> occurrences script_tag (transformIndexHtml
     ''<script src="./config/front.env.js"></script><!-- ENV -->'') = 2\<close>
  by (simp add: ENV_placeholder_def script_tag_def transformIndexHtml_def string_replace_def)

lemma later_occurrence:
  assumes eq: "pre @ ENV_placeholder @ post = pre' @ ENV_placeholder @ post'"
    and lt: "length pre < length pre'"
  shows "\<exists>mid. pre' = pre @ ENV_placeholder @ mid \<and> post = mid @ ENV_placeholder @ post'"
proof -
  from eq append_eq_append_conv2 [of pre "ENV_placeholder @ post" pre' "ENV_placeholder @ post'"]
  consider us where "pre = pre' @ us"
    | us where "pre' = pre @ us" "ENV_placeholder @ post = us @ ENV_placeholder @ post'"
    by blast
  then obtain us where us: "pre' = pre @ us" "ENV_placeholder @ post = us @ ENV_placeholder @ post'"
    using lt by cases auto
  from us(1) lt have ne: "us \<noteq> []" by auto
  from us(2) append_eq_append_conv2 [of ENV_placeholder post us "ENV_placeholder @ post'"]
  consider
    (inside) vs where "ENV_placeholder = us @ vs" "vs @ post = ENV_placeholder @ post'"
    | (after) vs where "us = ENV_placeholder @ vs" "post = vs @ ENV_placeholder @ post'"
    by blast
  then show ?thesis
  proof cases
    case inside
    show ?thesis
    proof (cases "vs = []")
      case True
      with inside us(1) show ?thesis by auto
    next
      case False
      have len: "length ENV_placeholder = length us + length vs"
        by (subst inside(1)) simp
      have d: "drop (length us) ENV_placeholder = vs"
        by (subst inside(1)) simp
      from len ne False have k: "1 \<le> length us" "length us < length ENV_placeholder"
        by (simp_all add: Suc_le_eq)
      from PP_inner k have "mismatch ENV_placeholder (drop (length us) ENV_placeholder)"
        by (simp add: no_inner_def list_all_iff)
      then have "\<not> prefix ENV_placeholder (vs @ post)"
        using d mismatch_not_prefix by blast
      with inside(2) show ?thesis by (simp add: prefix_def)
    qed
  next
    case after
    with us(1) show ?thesis by auto
  qed
qed

text \<open>
  Claim C10. For an HTML text with more than one placeholder, the transform replaces the
  first occurrence (no occurrence starts earlier) by the script reference, the text after
  it is kept as it is, so that every later occurrence of the placeholder is still in the
  output, and the number of placeholders goes down by exactly one.
\<close>

theorem transform_first_occurrence_only:
  assumes "1 < occurrences ENV_placeholder html"
  shows "\<exists>pre post.
           html = pre @ ENV_placeholder @ post
         \<and> (\<forall>pre' post'. html = pre' @ ENV_placeholder @ post' \<longrightarrow> length pre \<le> length pre')
         \<and> transformIndexHtml html = pre @ script_tag @ post
         \<and> (\<forall>pre' post'. html = pre' @ ENV_placeholder @ post' \<and> length pre < length pre' \<longrightarrow>
               (\<exists>mid. pre' = pre @ ENV_placeholder @ mid
                  \<and> transformIndexHtml html = (pre @ script_tag @ mid) @ ENV_placeholder @ post'))
         \<and> occurrences ENV_placeholder (transformIndexHtml html)
               = occurrences ENV_placeholder html - 1"
proof -
  from assms have "0 < occurrences ENV_placeholder html" by simp
  then obtain i where i: "index_of ENV_placeholder html = Some i"
    and h: "html = take i html @ ENV_placeholder @ drop (i + length ENV_placeholder) html"
    and t: "transformIndexHtml html = take i html @ script_tag @ drop (i + length ENV_placeholder) html"
    by (rule transformIndexHtml_first)
  define pre post where "pre = take i html" and "post = drop (i + length ENV_placeholder) html"
  from h t have h': "html = pre @ ENV_placeholder @ post"
    and t': "transformIndexHtml html = pre @ script_tag @ post"
    by (simp_all add: pre_def post_def)
  from index_of_Some [OF i] have len: "length pre = i"
    and least: "\<forall>j<i. \<not> prefix ENV_placeholder (drop j html)"
    by (simp_all add: pre_def)
  have first: "length pre \<le> length pre'" if "html = pre' @ ENV_placeholder @ post'" for pre' post'
  proof (rule ccontr)
    assume "\<not> length pre \<le> length pre'"
    with len least have "\<not> prefix ENV_placeholder (drop (length pre') html)" by simp
    moreover have "drop (length pre') html = ENV_placeholder @ post'"
      by (subst that) simp
    ultimately show False by simp
  qed
  have later: "\<exists>mid. pre' = pre @ ENV_placeholder @ mid
        \<and> transformIndexHtml html = (pre @ script_tag @ mid) @ ENV_placeholder @ post'"
    if "html = pre' @ ENV_placeholder @ post'" and "length pre < length pre'" for pre' post'
  proof -
    from that(1) h' have "pre @ ENV_placeholder @ post = pre' @ ENV_placeholder @ post'" by simp
    from later_occurrence [OF this that(2)] show ?thesis
      by (auto simp: t')
  qed
  have count: "occurrences ENV_placeholder (transformIndexHtml html)
      = occurrences ENV_placeholder html - 1"
    by (subst (2) h') (simp add: t' placeholder_count_with_placeholder placeholder_count_with_script)
  from h' first t' later count show ?thesis by blast
qed

theorem transform_first_occurrence_only_witness:
  \<open>1 < occurrences ENV_placeholder ''<!-- ENV --><p><!-- ENV -->''
   \<and> transformIndexHtml ''<!-- ENV --><p><!-- ENV -->''
       = ''<script src="./config/front.env.js"></script><p><!-- ENV -->''
   \<and> occurrences ENV_placeholder (transformIndexHtml ''<!-- ENV --><p><!-- ENV -->'') = 1\<close>
proof -
  have two: "occurrences ENV_placeholder ''<!-- ENV --><p><!-- ENV -->'' = 2"
    by (simp add: ENV_placeholder_def)
  then have more: "1 < occurrences ENV_placeholder ''<!-- ENV --><p><!-- ENV -->''" by simp
  from transform_first_occurrence_only [OF more] obtain pre post where
    "transformIndexHtml ''<!-- ENV --><p><!-- ENV -->'' = pre @ script_tag @ post"
    and c: "occurrences ENV_placeholder (transformIndexHtml ''<!-- ENV --><p><!-- ENV -->'')
      = occurrences ENV_placeholder ''<!-- ENV --><p><!-- ENV -->'' - 1"
    by blast
  have \<open>transformIndexHtml ''<!-- ENV --><p><!-- ENV -->''
       = ''<script src="./config/front.env.js"></script><p><!-- ENV -->''\<close>
    by (simp add: transformIndexHtml_def string_replace_def ENV_placeholder_def script_tag_def)
  with more c two show ?thesis by simp
qed

lemma occurrences_card:
  "occurrences pat s = card {u. \<exists>v. s = u @ pat @ v}"
proof (induction s)
  case Nil
  have "{u. \<exists>v. [] = u @ pat @ v} = (if pat = [] then {[]} else {})" by auto
  then show ?case by simp
next
  case (Cons c cs)
  have split: "{u. \<exists>v. c # cs = u @ pat @ v}
      = (if prefix pat (c # cs) then {[]} else {}) \<union> (#) c ` {u. \<exists>v. cs = u @ pat @ v}"
    (is "?L = ?A \<union> ?B")
  proof (intro set_eqI iffI)
    fix u assume "u \<in> ?L"
    then obtain v where v: "c # cs = u @ pat @ v" by blast
    show "u \<in> ?A \<union> ?B"
    proof (cases u)
      case Nil
      with v show ?thesis by (auto simp: prefix_def)
    next
      case (Cons a u')
      with v show ?thesis by auto
    qed
  next
    fix u assume "u \<in> ?A \<union> ?B"
    then consider "u = []" "prefix pat (c # cs)" | u' v where "u = c # u'" "cs = u' @ pat @ v"
      by (auto split: if_splits)
    then show "u \<in> ?L"
    proof cases
      case 1
      then show ?thesis by (auto simp: prefix_def)
    next
      case 2
      then show ?thesis by auto
    qed
  qed
  have fin: "finite {u. \<exists>v. cs = u @ pat @ v}"
  proof (rule finite_subset)
    show "{u. \<exists>v. cs = u @ pat @ v} \<subseteq> set (prefixes cs)" by (auto simp: prefix_def)
  qed simp
  have "card (?A \<union> ?B) = card ?A + card ?B"
    by (rule card_Un_disjoint) (use fin in \<open>auto split: if_splits\<close>)
  moreover have "card ?B = card {u. \<exists>v. cs = u @ pat @ v}"
    by (rule card_image) simp
  ultimately show ?case using Cons.IH split by simp
qed


section \<open>Properties of the startup generator\<close>

subsection \<open>Lines, fields and command substitution\<close>

lemma lines_of_line: "CHR 0x0A \<notin> set l \<Longrightarrow> lines_of (l @ CHR 0x0A # rest) = l # lines_of rest"
  by (induction l) auto

lemma lines_of_lines:
  "\<forall>l\<in>set ls. CHR 0x0A \<notin> set l \<Longrightarrow> lines_of (concat (map (\<lambda>l. l @ [CHR 0x0A]) ls)) = ls"
  by (induction ls) (auto simp: lines_of_line)

lemma fields_only_ifs: "\<forall>c\<in>set t. is_ifs c \<Longrightarrow> field_split t = []"
  by (induction t) auto

lemma fields_append_ifs: "\<forall>c\<in>set t. is_ifs c \<Longrightarrow> field_split (s @ t) = field_split s"
proof (induction s rule: field_split.induct)
  case 1
  then show ?case by (simp add: fields_only_ifs)
next
  case (2 c cs)
  show ?case
  proof (cases "is_ifs c")
    case True
    with 2 show ?thesis by simp
  next
    case False
    show ?thesis
    proof (cases "\<forall>d\<in>set cs. \<not> is_ifs d")
      case True
      from "2.prems" have t: "takeWhile (\<lambda>d. \<not> is_ifs d) t = []" "dropWhile (\<lambda>d. \<not> is_ifs d) t = t"
        by (cases t; simp)+
      from True have "takeWhile (\<lambda>d. \<not> is_ifs d) (cs @ t) = cs"
        and "dropWhile (\<lambda>d. \<not> is_ifs d) (cs @ t) = t"
        by (simp_all add: takeWhile_append2 dropWhile_append2 t)
      moreover from True have "takeWhile (\<lambda>d. \<not> is_ifs d) cs = cs"
        and "dropWhile (\<lambda>d. \<not> is_ifs d) cs = []"
        by simp_all
      moreover have "field_split t = []" using "2.prems" by (rule fields_only_ifs)
      ultimately show ?thesis using False by (simp del: takeWhile_eq_all_conv dropWhile_eq_Nil_conv)
    next
      case False
      then obtain d where d: "d \<in> set cs" "is_ifs d" by blast
      then have "takeWhile (\<lambda>d. \<not> is_ifs d) (cs @ t) = takeWhile (\<lambda>d. \<not> is_ifs d) cs"
        and "dropWhile (\<lambda>d. \<not> is_ifs d) (cs @ t) = dropWhile (\<lambda>d. \<not> is_ifs d) cs @ t"
        by (auto simp: takeWhile_append1 dropWhile_append1)
      with "2.IH"(2) [OF \<open>\<not> is_ifs c\<close> "2.prems"] \<open>\<not> is_ifs c\<close> show ?thesis by simp
    qed
  qed
qed

lemma command_substitution_decomp:
  "\<exists>t. out = command_substitution out @ t \<and> (\<forall>c\<in>set t. c = CHR 0x0A)"
proof -
  have "rev out = takeWhile (\<lambda>c. c = CHR 0x0A) (rev out) @ dropWhile (\<lambda>c. c = CHR 0x0A) (rev out)"
    by simp
  then have "out = rev (dropWhile (\<lambda>c. c = CHR 0x0A) (rev out)) @ rev (takeWhile (\<lambda>c. c = CHR 0x0A) (rev out))"
    by (metis rev_append rev_rev_ident)
  moreover have "\<forall>c\<in>set (rev (takeWhile (\<lambda>c. c = CHR 0x0A) (rev out))). c = CHR 0x0A"
    by (auto dest: set_takeWhileD)
  ultimately show ?thesis unfolding command_substitution_def by blast
qed

lemma fields_command_substitution: "field_split (command_substitution out) = field_split out"
proof -
  from command_substitution_decomp [of out] obtain t where
    t: "out = command_substitution out @ t" "\<forall>c\<in>set t. c = CHR 0x0A" by blast
  then have "\<forall>c\<in>set t. is_ifs c" by (simp add: is_ifs_def)
  from fields_append_ifs [OF this, of "command_substitution out"] t(1) show ?thesis by simp
qed

lemma command_substitution_line:
  "CHR 0x0A \<notin> set x \<Longrightarrow> command_substitution (x @ [CHR 0x0A]) = x"
proof -
  assume a: "CHR 0x0A \<notin> set x"
  have "dropWhile (\<lambda>c. c = CHR 0x0A) (rev x) = rev x"
    using a by (cases x rule: rev_cases) auto
  then show ?thesis by (simp add: command_substitution_def)
qed

lemma fields_word:
  assumes "\<not> is_ifs c" "\<forall>d\<in>set cs. \<not> is_ifs d" "is_ifs e"
  shows "field_split ((c # cs) @ e # rest) = (c # cs) # field_split rest"
  using assms by (simp add: takeWhile_append2 dropWhile_append2)

lemma fields_words:
  "\<forall>n\<in>set ns. n \<noteq> [] \<and> (\<forall>c\<in>set n. \<not> is_ifs c) \<Longrightarrow>
   field_split (concat (map (\<lambda>n. n @ [CHR 0x0A]) ns)) = ns"
proof (induction ns)
  case Nil
  then show ?case by simp
next
  case (Cons n ns)
  then obtain c cs where n: "n = c # cs" by (cases n) auto
  with Cons.prems have "\<not> is_ifs c" "\<forall>d\<in>set cs. \<not> is_ifs d" by auto
  from fields_word [OF this, of "CHR 0x0A" "concat (map (\<lambda>n. n @ [CHR 0x0A]) ns)"] Cons
  show ?case by (simp add: n is_ifs_def)
qed

lemma fields_elem:
  "w \<in> set (field_split s) \<Longrightarrow> w \<noteq> [] \<and> set w \<subseteq> set s \<and> (\<forall>c\<in>set w. \<not> is_ifs c)"
proof (induction s rule: field_split.induct)
  case 1
  then show ?case by simp
next
  case (2 c cs)
  show ?case
  proof (cases "is_ifs c")
    case True
    with 2 show ?thesis by auto
  next
    case False
    with "2.prems" consider "w = c # takeWhile (\<lambda>d. \<not> is_ifs d) cs"
      | "w \<in> set (field_split (dropWhile (\<lambda>d. \<not> is_ifs d) cs))" by auto
    then show ?thesis
    proof cases
      case 1
      with False show ?thesis by (auto dest: set_takeWhileD)
    next
      case 2
      from "2.IH"(2) [OF False 2] show ?thesis
        by (auto dest: set_dropWhileD)
    qed
  qed
qed

lemma set_unwords: "set (unwords ws) \<subseteq> (\<Union>w\<in>set ws. set w) \<union> {CHR '' ''}"
  by (induction ws rule: unwords.induct) auto

lemma set_unwords_fields: "set (unwords (field_split v)) \<subseteq> (set v - {c. is_ifs c}) \<union> {CHR '' ''}"
proof
  fix c assume "c \<in> set (unwords (field_split v))"
  with set_unwords [of "field_split v"] consider "c = CHR '' ''" | w where "w \<in> set (field_split v)" "c \<in> set w"
    by auto
  then show "c \<in> (set v - {c. is_ifs c}) \<union> {CHR '' ''}"
  proof cases
    case 1
    then show ?thesis by simp
  next
    case 2
    with fields_elem [OF 2(1)] show ?thesis by auto
  qed
qed

subsection \<open>The names the pipeline selects\<close>

text \<open>The whitelisted words are plain text: \<^verbatim>\<open>grep\<close> reads none of their characters as an operator.\<close>

lemma ENV_VARS_literal:
  "\<forall>p\<in>set (field_split ENV_VARS). \<forall>c\<in>set p. c \<in> set name_start"
  by code_simp

lemma name_char:
  assumes "c \<in> set name_start \<or> c \<in> set digits"
  shows "c \<noteq> CHR ''=''" "c \<noteq> CHR 0x0A" "\<not> is_ifs c" "c \<notin> set glob_chars" "c \<noteq> CHR 0x5C"
    "identifier_part c"
  using assms
  by (auto simp: name_start_def digits_def is_ifs_def glob_chars_def identifier_part_def)

lemma shell_name_chars:
  "shell_name n \<Longrightarrow> n \<noteq> [] \<and> (\<forall>c\<in>set n. c \<in> set name_start \<or> c \<in> set digits)"
  by (auto simp: shell_name_def split: list.splits)


lemma wf_env_entry:
  "wf_env env \<Longrightarrow> (n, v) \<in> set env \<Longrightarrow> shell_name n \<and> CHR 0x0A \<notin> set v"
  by (auto simp: wf_env_def)

lemma wf_env_lookup: "wf_env env \<Longrightarrow> (n, v) \<in> set env \<Longrightarrow> sh_variable env n = v"
  by (simp add: wf_env_def sh_variable_def)

lemma lines_env_output:
  assumes "wf_env env"
  shows "lines_of (env_output env) = map (\<lambda>(n, v). n @ ''='' @ v) env"
proof -
  have "env_output env = concat (map (\<lambda>l. l @ [CHR 0x0A]) (map (\<lambda>(n, v). n @ ''='' @ v) env))"
    by (simp add: env_output_def comp_def case_prod_unfold)
  moreover have "\<forall>l\<in>set (map (\<lambda>(n, v). n @ ''='' @ v) env). CHR 0x0A \<notin> set l"
  proof
    fix l assume "l \<in> set (map (\<lambda>(n, v). n @ ''='' @ v) env)"
    then obtain n v where nv: "(n, v) \<in> set env" "l = n @ ''='' @ v" by auto
    from wf_env_entry [OF assms nv(1)] shell_name_chars [of n] name_char(2)
    show "CHR 0x0A \<notin> set l" by (auto simp: nv(2))
  qed
  ultimately show ?thesis by (simp only: lines_of_lines)
qed

lemma prefix_line:
  assumes "CHR ''='' \<notin> set p"
  shows "prefix p (n @ ''='' @ v) \<longleftrightarrow> prefix p n"
proof
  assume "prefix p (n @ ''='' @ v)"
  then consider "prefix p n" | us where "p = n @ us" "prefix us (''='' @ v)"
    unfolding prefix_append by blast
  then show "prefix p n"
  proof cases
    case 1
    then show ?thesis .
  next
    case 2
    with assms show ?thesis by (cases us) auto
  qed
next
  assume "prefix p n"
  then show "prefix p (n @ ''='' @ v)" by (rule prefix_prefix)
qed

lemma matching_names_wf:
  assumes "wf_env env" and "CHR ''='' \<notin> set p"
  shows "matching_names env p
           = concat (map (\<lambda>n. n @ [CHR 0x0A]) (map fst (filter (\<lambda>(n, v). prefix p n) env)))"
proof -
  have grep: "grep_E_anchored p (map (\<lambda>(n, v). n @ ''='' @ v) env)
      = map (\<lambda>(n, v). n @ ''='' @ v) (filter (\<lambda>(n, v). prefix p n) env)"
    using prefix_line [OF assms(2)]
    by (simp add: grep_E_anchored_def filter_map comp_def case_prod_unfold)
  have awk: "awk_first_field (n @ ''='' @ v) = n" if "(n, v) \<in> set env" for n v
  proof -
    from wf_env_entry [OF assms(1) that] shell_name_chars [of n] name_char(1)
    have "\<forall>c\<in>set n. c \<noteq> CHR ''=''" by blast
    then show ?thesis by (simp add: awk_first_field_def takeWhile_append2)
  qed
  have "map (\<lambda>l. awk_first_field l @ [CHR 0x0A])
          (map (\<lambda>(n, v). n @ ''='' @ v) (filter (\<lambda>(n, v). prefix p n) env))
        = map (\<lambda>n. n @ [CHR 0x0A]) (map fst (filter (\<lambda>(n, v). prefix p n) env))"
    using awk by (auto simp: comp_def)
  then show ?thesis
    by (simp only: matching_names_def lines_env_output [OF assms(1)] grep)
qed

lemma expand_word_name: "shell_name n \<Longrightarrow> expand_word h ns n = [n]"
  using shell_name_chars [of n] name_char(4) by (auto simp: expand_word_def)

lemma concat_singletons: "(\<And>x. x \<in> set xs \<Longrightarrow> f x = [x]) \<Longrightarrow> concat (map f xs) = xs"
  by (induction xs) auto

lemma names_for_prefix:
  assumes "wf_env env" and "CHR ''='' \<notin> set p"
  shows "word_expansion h ns (command_substitution (matching_names env p))
           = map fst (filter (\<lambda>(n, v). prefix p n) env)"
proof -
  let ?names = "map fst (filter (\<lambda>(n, v). prefix p n) env)"
  have names: "shell_name n" if "n \<in> set ?names" for n
    using that wf_env_entry [OF assms(1)] by auto
  have "\<forall>n\<in>set ?names. n \<noteq> [] \<and> (\<forall>c\<in>set n. \<not> is_ifs c)"
    using names shell_name_chars name_char(3) by blast
  then have "field_split (command_substitution (matching_names env p)) = ?names"
    by (simp only: fields_command_substitution matching_names_wf [OF assms] fields_words)
  moreover have "concat (map (expand_word h ns) ?names) = ?names"
    by (rule concat_singletons) (simp add: names expand_word_name)
  ultimately show ?thesis by (simp add: word_expansion_def)
qed

subsection \<open>The lines written, and reading them back\<close>

lemma fields_ENV_VARS: "field_split ENV_VARS = [''STAGE'', ''API_URL'']"
  by (simp add: ENV_VARS_def is_ifs_def)

lemma words_ENV_VARS: "word_expansion h ns ENV_VARS = [''STAGE'', ''API_URL'']"
  by (simp add: word_expansion_def fields_ENV_VARS expand_word_def glob_chars_def)


lemma plain_value_words:
  assumes "plain_value v"
  shows "word_expansion h ns v = field_split v" and "plain_args (field_split v)"
proof -
  have "expand_word h ns w = [w]" if "w \<in> set (field_split v)" for w
  proof -
    from fields_elem [OF that] have "set w \<subseteq> set v" by simp
    with assms show ?thesis by (auto simp: expand_word_def plain_value_def glob_chars_def)
  qed
  then show "word_expansion h ns v = field_split v"
    unfolding word_expansion_def by (rule concat_singletons)
  have "CHR 0x5C \<notin> set w" if "w \<in> set (field_split v)" for w
    using fields_elem [OF that] assms by (auto simp: plain_value_def)
  with assms show "plain_args (field_split v)"
    by (auto simp: plain_args_def plain_value_def split: list.splits)
qed

lemma echo_builtin_plain: "plain_args args \<Longrightarrow> echo_builtin h args = unwords args @ [CHR 0x0A]"
  by (cases args) (auto simp: echo_builtin_def plain_args_def Let_def split: prod.splits)

lemma echo_builtin_shape:
  assumes "\<forall>a\<in>set args. CHR 0x5C \<notin> set a"
  shows "\<exists>k nl. echo_builtin h args = unwords (drop k args) @ nl \<and> (nl = [] \<or> nl = [CHR 0x0A])"
proof -
  obtain k nn where o: "echo_options h (takeWhile (prefix ''-'') args) = (k, nn)"
    by (cases "echo_options h (takeWhile (prefix ''-'') args)") auto
  let ?t = "min k (length (takeWhile (prefix ''-'') args))"
  from assms have "echo_builtin h args
      = unwords (drop ?t args) @ (if 0 < ?t \<and> nn then [] else [CHR 0x0A])"
    by (simp add: echo_builtin_def Let_def o)
  then have "echo_builtin h args = unwords (drop ?t args) @ (if 0 < ?t \<and> nn then [] else [CHR 0x0A])
      \<and> ((if 0 < ?t \<and> nn then [] else [CHR 0x0A]) = []
           \<or> (if 0 < ?t \<and> nn then [] else [CHR 0x0A]) = [CHR 0x0A])"
    by simp
  then show ?thesis by blast
qed

text \<open>
  For a plain value every shell prints the same text: the fields of the value with
  single spaces between them.
\<close>

lemma value_plain:
  assumes "wf_env env" and "(n, v) \<in> set env" and "plain_value v"
  shows "command_substitution (eval_echo h ns env n) = unwords (field_split v)"
proof -
  have "CHR 0x0A \<notin> set (unwords (field_split v))"
    using set_unwords_fields [of v] by (auto simp: is_ifs_def)
  then show ?thesis
    by (simp add: eval_echo_def wf_env_lookup [OF assms(1,2)] plain_value_words [OF assms(3)]
        echo_builtin_plain command_substitution_line)
qed

lemma echo_entry:
  assumes "shell_name n" and "\<forall>c\<in>set val. c \<noteq> CHR 0x5C"
  shows "echo_builtin h [entry_text n val] = entry_text n val @ [CHR 0x0A]"
proof -
  from shell_name_chars [OF assms(1)] name_char(5) have "\<forall>c\<in>set n. c \<noteq> CHR 0x5C" by blast
  with assms(2) have "plain_args [entry_text n val]"
    by (auto simp: plain_args_def entry_text_def)
  then show ?thesis by (simp add: echo_builtin_plain)
qed

lemma command_substitution_id: "CHR 0x0A \<notin> set x \<Longrightarrow> command_substitution x = x"
  by (cases x rule: rev_cases) (auto simp: command_substitution_def)

lemma space_string_character: "string_character (CHR '' '')"
  by (simp add: string_character_def)

lemma literal_unwords: "\<forall>w\<in>set ws. literal_text w \<Longrightarrow> literal_text (unwords ws)"
  by (induction ws rule: unwords.induct) (auto simp: literal_text_def space_string_character)

text \<open>
  The text that \<^verbatim>\<open>value=$(eval echo "\$$var")\<close> leaves in \<^verbatim>\<open>value\<close>, when the words of
  the expansion are texts for a string literal: whatever \<^verbatim>\<open>echo\<close> takes for an option,
  it prints some of the words with spaces between them.
\<close>

lemma value_literal:
  assumes "wf_env env" and "(n, v) \<in> set env"
    and "\<forall>x\<in>set (word_expansion h ns v). literal_text x"
  shows "literal_text (command_substitution (eval_echo h ns env n))"
proof -
  let ?ws = "word_expansion h ns v"
  from assms(3) have nb: "\<forall>a\<in>set ?ws. CHR 0x5C \<notin> set a"
    by (auto simp: literal_text_def string_character_def)
  from echo_builtin_shape [OF nb, of h] obtain k nl where
    out: "echo_builtin h ?ws = unwords (drop k ?ws) @ nl" and nl: "nl = [] \<or> nl = [CHR 0x0A]"
    by blast
  from assms(3) have "\<forall>w\<in>set (drop k ?ws). literal_text w" by (auto dest: in_set_dropD)
  then have body: "literal_text (unwords (drop k ?ws))" by (rule literal_unwords)
  then have "CHR 0x0A \<notin> set (unwords (drop k ?ws))"
    by (auto simp: literal_text_def string_character_def)
  with nl have "command_substitution (unwords (drop k ?ws) @ nl) = unwords (drop k ?ws)"
    by (auto simp: command_substitution_id command_substitution_line)
  with body show ?thesis
    by (simp add: eval_echo_def wf_env_lookup [OF assms(1,2)] out)
qed

lemma front_env_js_entries_literal:
  assumes "wf_env env"
    and "\<forall>(n, v)\<in>set env. whitelisted n \<longrightarrow> (\<forall>x\<in>set (word_expansion h ns v). literal_text x)"
  shows "front_env_js_entries h ns env
           = map (\<lambda>(n, v). entry_text n (command_substitution (eval_echo h ns env n)) @ [CHR 0x0A])
               (selected env)"
proof -
  have one: "map (variable_line h ns env)
               (word_expansion h ns (command_substitution (matching_names env p)))
             = map (\<lambda>(n, v). entry_text n (command_substitution (eval_echo h ns env n)) @ [CHR 0x0A])
                 (filter (\<lambda>(n, v). prefix p n) env)"
    if p: "p \<in> set (field_split ENV_VARS)" for p
  proof -
    from p have eq: "CHR ''='' \<notin> set p" by (auto simp: fields_ENV_VARS)
    have "variable_line h ns env n
            = entry_text n (command_substitution (eval_echo h ns env n)) @ [CHR 0x0A]"
      if "(n, v) \<in> set env" "prefix p n" for n v
    proof -
      from that p have "whitelisted n" by (auto simp: whitelisted_def)
      with assms(2) that(1) have "\<forall>x\<in>set (word_expansion h ns v). literal_text x" by blast
      from value_literal [OF assms(1) that(1) this]
      have "\<forall>c\<in>set (command_substitution (eval_echo h ns env n)). c \<noteq> CHR 0x5C"
        by (auto simp: literal_text_def string_character_def)
      moreover from wf_env_entry [OF assms(1) that(1)] have "shell_name n" by simp
      ultimately show ?thesis
        by (simp add: variable_line_def echo_entry)
    qed
    then show ?thesis
      by (auto simp add: names_for_prefix [OF assms(1) eq] comp_def case_prod_unfold)
  qed
  show ?thesis
    unfolding front_env_js_entries_def selected_def words_ENV_VARS fields_ENV_VARS
    using one by (simp add: fields_ENV_VARS)
qed

lemma echo_header: "echo_builtin h [''window._env_ = {''] = ''window._env_ = {'' @ [CHR 0x0A]"
  by (simp add: echo_builtin_plain plain_args_def)

lemma echo_footer: "echo_builtin h [''};''] = ''};'' @ [CHR 0x0A]"
  by (simp add: echo_builtin_plain plain_args_def)







subsection \<open>The commands and the loops on the state\<close>

lemma log_event_simps [simp]:
  "fs (log_event e s) = fs s" "status (log_event e s) = status s"
  "trace (log_event e s) = trace s @ [e]"
  by (simp_all add: log_event_def)

lemma echo_stdout_simps [simp]:
  "fs (echo_stdout h args s) = fs s"
  "trace (echo_stdout h args s) = trace s @ [Stdout (echo_builtin h args)]"
  by (simp_all add: echo_stdout_def)

lemma nginx_simps [simp]:
  "fs (nginx h s) = fs s" "status (nginx h s) = nginx_status h"
  "trace (nginx h s) = trace s @ [Server_start (files (fs s) front_env_js)]"
  by (simp_all add: nginx_def)

lemma fs_mkdir_p:
  "fs (mkdir_p p s) =
     (if directory (fs s) p \<or> read_only (fs s)
         \<or> (\<exists>q\<in>set (prefixes p). files (fs s) q \<noteq> None)
      then fs s
      else (fs s)\<lparr>dirs := insert p (dirs (fs s))\<rparr>)"
  by (simp add: mkdir_p_def)

lemma fs_mkdir_p_cong: "fs s' = fs s \<Longrightarrow> fs (mkdir_p p s') = fs (mkdir_p p s)"
  by (simp add: fs_mkdir_p)


lemma directory_files [simp]: "directory (f\<lparr>files := m\<rparr>) p = directory f p"
  by (simp add: directory_def)

lemma fs_redirect_write:
  "fs (redirect_write p t s) =
     (if can_open (fs s) p then (fs s)\<lparr>files := (files (fs s))(p \<mapsto> t)\<rparr> else fs s)"
  by (simp add: redirect_write_def)


lemma fs_redirect_append:
  "fs (redirect_append p t s) =
     (if can_open (fs s) p
      then (fs s)\<lparr>files := (files (fs s))
              (p \<mapsto> (case files (fs s) p of None \<Rightarrow> [] | Some old \<Rightarrow> old) @ t)\<rparr>
      else fs s)"
  by (simp add: redirect_append_def)


lemma namespace_overwrite:
  "files f p = Some old \<Longrightarrow> namespace (f\<lparr>files := (files f)(p \<mapsto> t)\<rparr>) = namespace f"
  by (auto simp: namespace_def fun_eq_iff directory_def)

lemma can_open_files [simp]: "can_open (f\<lparr>files := m\<rparr>) p = can_open f p"
  by (simp add: can_open_def)

text \<open>
  When the first redirection cannot open the file, \<^verbatim>\<open>mkdir -p\<close> has changed nothing:
  had it made the directory, the file could be created in it.
\<close>

lemma butlast_front_env_js: "butlast front_env_js = config_dir"
  by (simp add: front_env_js_def config_dir_def)

lemma made_not_directory:
  assumes "\<not> directory f config_dir"
  shows "\<not> directory (f\<lparr>dirs := insert config_dir (dirs f)\<rparr>) front_env_js"
proof
  assume "directory (f\<lparr>dirs := insert config_dir (dirs f)\<rparr>) front_env_js"
  then obtain q where q: "q \<in> insert config_dir (dirs f)" "prefix front_env_js q"
    by (auto simp: directory_def)
  have "\<not> prefix front_env_js config_dir"
    by (simp add: front_env_js_def config_dir_def)
  with q have "q \<in> dirs f" by auto
  moreover have "prefix config_dir front_env_js"
    by (simp add: front_env_js_def config_dir_def)
  then have "prefix config_dir q" using q(2) prefix_order.trans by blast
  ultimately show False using assms by (auto simp: directory_def)
qed

lemma made_directory: "directory (f\<lparr>dirs := insert config_dir (dirs f)\<rparr>) config_dir"
  by (auto simp: directory_def)


lemma mkdir_p_open:
  assumes "can_open (fs (mkdir_p config_dir s)) front_env_js"
  shows "directory (fs (mkdir_p config_dir s)) config_dir"
  using assms by (simp add: can_open_def front_env_js_def config_dir_def)

text \<open>The loops on a file that can be opened and exists.\<close>

lemma fold_add_variable_fs:
  assumes "can_open (fs s) front_env_js" and "files (fs s) front_env_js = Some old"
  shows "fs (fold (add_variable h env) vars s)
           = (fs s)\<lparr>files := (files (fs s))
                (front_env_js \<mapsto> old @ concat (map (variable_line h (namespace (fs s)) env) vars))\<rparr>"
  using assms
proof (induction vars arbitrary: s old)
  case Nil
  then show ?case by (simp add: map_upd_triv)
next
  case (Cons var vars)
  let ?s = "add_variable h env var s"
  let ?l = "variable_line h (namespace (fs s)) env var"
  from Cons.prems have step: "fs ?s = (fs s)\<lparr>files := (files (fs s))(front_env_js \<mapsto> old @ ?l)\<rparr>"
    by (simp add: add_variable_def fs_redirect_append)
  then have "can_open (fs ?s) front_env_js" "files (fs ?s) front_env_js = Some (old @ ?l)"
    and ns: "namespace (fs ?s) = namespace (fs s)"
    using Cons.prems by (simp_all add: namespace_overwrite)
  from Cons.IH [OF this(1,2)]
  have "fs (fold (add_variable h env) vars ?s)
      = (fs ?s)\<lparr>files := (files (fs ?s))
          (front_env_js \<mapsto> (old @ ?l) @ concat (map (variable_line h (namespace (fs s)) env) vars))\<rparr>"
    by (simp only: ns)
  also have "\<dots> = (fs s)\<lparr>files := (files (fs s))
          (front_env_js \<mapsto> old @ concat (map (variable_line h (namespace (fs s)) env) (var # vars)))\<rparr>"
    by (simp add: step)
  finally show ?case by (simp only: fold_simps o_apply)
qed

lemma add_prefix_fs:
  assumes "can_open (fs s) front_env_js" and "files (fs s) front_env_js = Some old"
  shows "fs (add_prefix h env p s)
           = (fs s)\<lparr>files := (files (fs s))
                (front_env_js \<mapsto> old @ concat (map (variable_line h (namespace (fs s)) env)
                   (word_expansion h (namespace (fs s))
                      (command_substitution (matching_names env p)))))\<rparr>"
  unfolding add_prefix_def by (rule fold_add_variable_fs [OF assms])

lemma fold_add_prefix_fs:
  assumes "can_open (fs s) front_env_js" and "files (fs s) front_env_js = Some old"
  shows "fs (fold (add_prefix h env) ps s)
           = (fs s)\<lparr>files := (files (fs s))
                (front_env_js \<mapsto> old @ concat (concat (map (\<lambda>p.
                    map (variable_line h (namespace (fs s)) env)
                      (word_expansion h (namespace (fs s))
                         (command_substitution (matching_names env p)))) ps)))\<rparr>"
  using assms
proof (induction ps arbitrary: s old)
  case Nil
  then show ?case by (simp add: map_upd_triv)
next
  case (Cons p ps)
  let ?s = "add_prefix h env p s"
  let ?ls = "concat (map (variable_line h (namespace (fs s)) env)
                   (word_expansion h (namespace (fs s))
                      (command_substitution (matching_names env p))))"
  have step: "fs ?s = (fs s)\<lparr>files := (files (fs s))(front_env_js \<mapsto> old @ ?ls)\<rparr>"
    by (rule add_prefix_fs [OF Cons.prems])
  then have "can_open (fs ?s) front_env_js" "files (fs ?s) front_env_js = Some (old @ ?ls)"
    and ns: "namespace (fs ?s) = namespace (fs s)"
    using Cons.prems by (simp_all add: namespace_overwrite)
  from Cons.IH [OF this(1,2)]
  have "fs (fold (add_prefix h env) ps ?s)
      = (fs ?s)\<lparr>files := (files (fs ?s))
          (front_env_js \<mapsto> (old @ ?ls) @ concat (concat (map (\<lambda>p.
                    map (variable_line h (namespace (fs s)) env)
                      (word_expansion h (namespace (fs s))
                         (command_substitution (matching_names env p)))) ps)))\<rparr>"
    by (simp only: ns)
  also have "\<dots> = (fs s)\<lparr>files := (files (fs s))
          (front_env_js \<mapsto> old @ concat (concat (map (\<lambda>p.
                    map (variable_line h (namespace (fs s)) env)
                      (word_expansion h (namespace (fs s))
                         (command_substitution (matching_names env p)))) (p # ps))))\<rparr>"
    by (simp add: step)
  finally show ?case by (simp only: fold_simps o_apply)
qed





subsection \<open>The whole script\<close>



lemma start_sh_writable_explicit:
  fixes h :: host and env :: environment and s :: sh_state
  assumes "can_open (fs (mkdir_p config_dir s)) front_env_js"
  defines "f2 \<equiv> fs (mkdir_p config_dir s)"
  defines "ns \<equiv> namespace (f2\<lparr>files := (files f2)(front_env_js \<mapsto> echo_builtin h [''window._env_ = {''])\<rparr>)"
  shows "fs (start_sh h env s)
           = f2\<lparr>files := (files f2)(front_env_js \<mapsto> front_env_js_text h ns env)\<rparr>"
proof -
  define s2 where "s2 = mkdir_p config_dir (echo_stdout h [''Configuring environment variables...''] s)"
  define s3 where "s3 = redirect_write front_env_js (echo_builtin h [''window._env_ = {'']) s2"
  define s4 where "s4 = fold (add_prefix h env) (word_expansion h (namespace (fs s3)) ENV_VARS) s3"
  define s5 where "s5 = redirect_append front_env_js (echo_builtin h [''};'']) s4"
  have 2: "fs s2 = f2"
    unfolding s2_def f2_def by (rule fs_mkdir_p_cong) simp
  from assms(1) have op: "can_open f2 front_env_js" by (simp add: f2_def)
  with 2 have 3: "fs s3 = f2\<lparr>files := (files f2)(front_env_js \<mapsto> echo_builtin h [''window._env_ = {''])\<rparr>"
    by (simp add: s3_def fs_redirect_write)
  then have ns3: "namespace (fs s3) = ns" by (simp add: ns_def)
  from 3 op have op3: "can_open (fs s3) front_env_js"
    and f3: "files (fs s3) front_env_js = Some (echo_builtin h [''window._env_ = {''])"
    by simp_all
  have 4: "fs s4 = (fs s3)\<lparr>files := (files (fs s3))
      (front_env_js \<mapsto> echo_builtin h [''window._env_ = {''] @ concat (front_env_js_entries h ns env))\<rparr>"
    unfolding s4_def fold_add_prefix_fs [OF op3 f3] ns3 front_env_js_entries_def ..
  with op3 have 5: "fs s5 = (fs s3)\<lparr>files := (files (fs s3))
      (front_env_js \<mapsto> front_env_js_text h ns env)\<rparr>"
    by (simp add: s5_def fs_redirect_append front_env_js_text_def)
  have "fs (start_sh h env s) = fs s5"
    by (simp add: start_sh_def Let_def s5_def s4_def s3_def s2_def)
  with 5 3 show ?thesis by simp
qed

lemma start_sh_writable:
  fixes h :: host and env :: environment and s :: sh_state
  assumes "can_open (fs (mkdir_p config_dir s)) front_env_js"
  defines "f \<equiv> fs (start_sh h env s)"
  shows "dirs f = dirs (fs (mkdir_p config_dir s))"
    and "files f = (files (fs s))(front_env_js \<mapsto> front_env_js_text h (namespace f) env)"
    and "read_only f = read_only (fs (mkdir_p config_dir s))"
    and "can_open (fs (mkdir_p config_dir (start_sh h env s))) front_env_js"
    and "fs (mkdir_p config_dir (start_sh h env s)) = f"
proof -
  let ?f2 = "fs (mkdir_p config_dir s)"
  let ?ns = "namespace (?f2\<lparr>files := (files ?f2)(front_env_js \<mapsto> echo_builtin h [''window._env_ = {''])\<rparr>)"
  have f: "f = ?f2\<lparr>files := (files ?f2)(front_env_js \<mapsto> front_env_js_text h ?ns env)\<rparr>"
    unfolding f_def by (rule start_sh_writable_explicit [OF assms(1)])
  have "namespace f = ?ns"
    unfolding f by (auto simp: namespace_def fun_eq_iff)
  moreover have "files ?f2 = files (fs s)" by (simp add: fs_mkdir_p)
  ultimately show "files f = (files (fs s))(front_env_js \<mapsto> front_env_js_text h (namespace f) env)"
    using f by simp
  show "dirs f = dirs ?f2" by (simp add: f)
  show "read_only f = read_only ?f2" by (simp add: f)
  from mkdir_p_open [OF assms(1)] have "directory f config_dir" by (simp add: f)
  then show same: "fs (mkdir_p config_dir (start_sh h env s)) = f"
    by (simp add: fs_mkdir_p f_def)
  from assms(1) have "can_open f front_env_js" by (simp add: f)
  with same show "can_open (fs (mkdir_p config_dir (start_sh h env s))) front_env_js" by simp
qed





text \<open>When the first redirection can open the file.\<close>

lemma first_write_can_open:
  "can_open (fs (mkdir_p config_dir s)) front_env_js \<longleftrightarrow>
     \<not> read_only (fs s) \<and> \<not> directory (fs s) front_env_js \<and>
     (directory (fs s) config_dir \<or> (\<forall>q\<in>set (prefixes config_dir). files (fs s) q = None))"
proof (cases "directory (fs s) config_dir \<or> read_only (fs s)
    \<or> (\<exists>q\<in>set (prefixes config_dir). files (fs s) q \<noteq> None)")
  case True
  then have "fs (mkdir_p config_dir s) = fs s" by (simp add: fs_mkdir_p)
  with True show ?thesis by (auto simp: can_open_def butlast_front_env_js)
next
  case False
  then have made: "fs (mkdir_p config_dir s) = (fs s)\<lparr>dirs := insert config_dir (dirs (fs s))\<rparr>"
    by (simp add: fs_mkdir_p)
  from False have nd: "\<not> directory (fs s) config_dir" by simp
  have "\<not> directory (fs s) front_env_js"
  proof
    assume "directory (fs s) front_env_js"
    then obtain q where "q \<in> dirs (fs s)" "prefix front_env_js q" by (auto simp: directory_def)
    moreover have "prefix config_dir front_env_js"
      by (simp add: front_env_js_def config_dir_def)
    ultimately have "directory (fs s) config_dir"
      using prefix_order.trans by (auto simp: directory_def)
    with nd show False by simp
  qed
  with made_not_directory [OF nd] made_directory [of "fs s"] False show ?thesis
    by (auto simp: can_open_def made butlast_front_env_js)
qed

lemma whitelisted_iff: "whitelisted n \<longleftrightarrow> prefix ''STAGE'' n \<or> prefix ''API_URL'' n"
  by (simp add: whitelisted_def fields_ENV_VARS)

subsection \<open>The generated file\<close>

text \<open>
  Values without a double quote, backslash, carriage return or pattern character give
  words that can stand in a string literal, on every host.
\<close>

lemma literal_value_words:
  assumes "literal_text v" and "\<forall>c\<in>set v. c \<notin> set glob_chars"
  shows "\<forall>x\<in>set (word_expansion h ns v). literal_text x"
proof
  fix x assume x: "x \<in> set (word_expansion h ns v)"
  have "expand_word h ns w = [w]" if "w \<in> set (field_split v)" for w
    using fields_elem [OF that] assms(2) by (auto simp: expand_word_def)
  then have "word_expansion h ns v = field_split v"
    unfolding word_expansion_def by (rule concat_singletons)
  with x have "x \<in> set (field_split v)" by simp
  from fields_elem [OF this] assms(1) show "literal_text x"
    by (auto simp: literal_text_def)
qed




text \<open>
  A backslash at the end of a value takes the closing quote with it, and a carriage
  return ends the line inside the string literal: neither file loads.
\<close>

lemma start_sh_backslash_example:
  \<open>files (fs (start_sh plain_host [(''STAGE'', ''a'' @ [CHR 0x5C])] container)) front_env_js
     = Some (''window._env_ = {\<newline>    STAGE: "a'' @ [CHR 0x5C] @ ''",\<newline>};\<newline>'')
   \<and> load_front_env_js
         (''window._env_ = {\<newline>    STAGE: "a'' @ [CHR 0x5C] @ ''",\<newline>};\<newline>'') = None\<close>
proof -
  have \<open>parse_front_env_js
      (''window._env_ = {\<newline>    STAGE: "a'' @ [CHR 0x5C] @ ''",\<newline>};\<newline>'') = None\<close>
    by code_simp
  then have \<open>load_front_env_js
      (''window._env_ = {\<newline>    STAGE: "a'' @ [CHR 0x5C] @ ''",\<newline>};\<newline>'') = None\<close>
    by (simp add: load_front_env_js_def)
  moreover
  have \<open>files (fs (start_sh plain_host [(''STAGE'', ''a'' @ [CHR 0x5C])] container)) front_env_js
     = Some (''window._env_ = {\<newline>    STAGE: "a'' @ [CHR 0x5C] @ ''",\<newline>};\<newline>'')\<close>
    by code_simp
  ultimately show ?thesis by blast
qed

lemma start_sh_carriage_return_example:
  \<open>files (fs (start_sh plain_host [(''STAGE'', ''a'' @ [CHR 0x0D] @ ''b'')] container)) front_env_js
     = Some (''window._env_ = {\<newline>    STAGE: "a'' @ [CHR 0x0D] @ ''b",\<newline>};\<newline>'')
   \<and> load_front_env_js
         (''window._env_ = {\<newline>    STAGE: "a'' @ [CHR 0x0D] @ ''b",\<newline>};\<newline>'') = None\<close>
proof -
  have \<open>parse_front_env_js
      (''window._env_ = {\<newline>    STAGE: "a'' @ [CHR 0x0D] @ ''b",\<newline>};\<newline>'') = None\<close>
    by code_simp
  then have \<open>load_front_env_js
      (''window._env_ = {\<newline>    STAGE: "a'' @ [CHR 0x0D] @ ''b",\<newline>};\<newline>'') = None\<close>
    by (simp add: load_front_env_js_def)
  moreover
  have \<open>files (fs (start_sh plain_host [(''STAGE'', ''a'' @ [CHR 0x0D] @ ''b'')] container))
      front_env_js
     = Some (''window._env_ = {\<newline>    STAGE: "a'' @ [CHR 0x0D] @ ''b",\<newline>};\<newline>'')\<close>
    by code_simp
  ultimately show ?thesis by blast
qed

text \<open>
  With no whitelisted name in the environment the file is the empty object, and it
  loads.
\<close>

lemma start_sh_no_match:
  assumes "wf_env env" and "\<forall>(n, v)\<in>set env. \<not> whitelisted n"
    and "can_open (fs (mkdir_p config_dir s)) front_env_js"
  shows "files (fs (start_sh h env s)) front_env_js = Some ''window._env_ = {\<newline>};\<newline>''"
    and "load_front_env_js ''window._env_ = {\<newline>};\<newline>'' = Some Map.empty"
proof -
  from assms(2) have none: "selected env = []"
    by (auto simp: selected_def whitelisted_def filter_empty_conv)
  from assms(2) have lit: "\<forall>(n, v)\<in>set env. whitelisted n \<longrightarrow>
      (\<forall>x\<in>set (word_expansion h ns v). literal_text x)" for ns
    by auto
  have "front_env_js_text h ns env = ''window._env_ = {\<newline>};\<newline>''" for ns
    by (simp add: front_env_js_text_def front_env_js_entries_literal [OF assms(1) lit] none
        echo_header echo_footer)
  with start_sh_writable(2) [OF assms(3), of h env]
  show "files (fs (start_sh h env s)) front_env_js = Some ''window._env_ = {\<newline>};\<newline>''"
    by simp
  have "parse_front_env_js ''window._env_ = {\<newline>};\<newline>'' = Some []" by code_simp
  then show "load_front_env_js ''window._env_ = {\<newline>};\<newline>'' = Some Map.empty"
    by (simp add: load_front_env_js_def)
qed

text \<open>
  The whitelist is matched as a prefix: a variable whose name only begins with
  \<^verbatim>\<open>STAGE\<close> is written to the file as well.
\<close>

lemma start_sh_prefix_example:
  \<open>files (fs (start_sh plain_host [(''STAGE'', ''QAS''), (''STAGE_OWNER'', ''ops'')] container))
     front_env_js
   = Some ''window._env_ = {\<newline>    STAGE: "QAS",\<newline>    STAGE_OWNER: "ops",\<newline>};\<newline>''\<close>
  by code_simp



subsection \<open>Failing writes and the order of events\<close>




text \<open>
  Where a regular file holds the place of the directory \<^verbatim>\<open>/var/www/app/config\<close>, on a
  filesystem that is not read-only, \<^verbatim>\<open>mkdir -p\<close> fails and so does every redirection:
  nothing is written, and the server is started without the file.
\<close>

lemma start_sh_blocked_example:
  \<open>\<not> read_only (fs blocked_container)
   \<and> trace (start_sh plain_host [(''STAGE'', ''NEW'')] blocked_container) =
       [Stdout ''Configuring environment variables...\<newline>'',
        Mkdir config_dir False,
        Open_write front_env_js False,
        Open_append front_env_js False,
        Open_append front_env_js False,
        Stdout ''Starting Nginx...\<newline>'',
        Server_start None]
   \<and> files (fs (start_sh plain_host [(''STAGE'', ''NEW'')] blocked_container)) front_env_js = None\<close>
proof -
  have "\<not> read_only (fs blocked_container)" by code_simp
  moreover have \<open>trace (start_sh plain_host [(''STAGE'', ''NEW'')] blocked_container) =
       [Stdout ''Configuring environment variables...\<newline>'',
        Mkdir config_dir False,
        Open_write front_env_js False,
        Open_append front_env_js False,
        Open_append front_env_js False,
        Stdout ''Starting Nginx...\<newline>'',
        Server_start None]\<close>
    by code_simp
  moreover
  have "files (fs (start_sh plain_host [(''STAGE'', ''NEW'')] blocked_container)) front_env_js = None"
    by code_simp
  ultimately show ?thesis by blast
qed




end
